theory Spec2Isabelle
  imports Main "HOL-Library.AList" "HOL-Library.Char_ord" "HOL-Library.List_Lexorder"
    "HOL-Library.Product_Lexorder" "HOL-Library.Multiset"
begin

section \<open>Lograptor: application rules and the matcher engine\<close>

text \<open>
  A shallow embedding of \<^verbatim>\<open>lograptor/application.py\<close> (classes \<^verbatim>\<open>AppRule\<close> and
  \<^verbatim>\<open>AppLogParser\<close>) and of \<^verbatim>\<open>lograptor/matcher.py\<close> (\<^verbatim>\<open>create_matcher_engine\<close> and
  its closure \<^verbatim>\<open>process_logfile\<close>).

  Python exceptions are values of the type \<open>error\<close>; a function that can raise returns
  \<open>error + 'a\<close>. Python's \<^verbatim>\<open>None\<close> is \<open>None\<close> of an option type. Python integers are
  \<open>int\<close>. Objects that the code mutates (rules, applications) are records that are passed
  in and returned updated.
\<close>

subsection \<open>Exceptions\<close>

datatype error =
    LogRaptorConfigError string
  | KeyError
  | ValueError
  | TypeError
  | IndexError
  | AttributeError
  | UnboundLocalError

subsection \<open>Regular expressions (Python's \<^verbatim>\<open>re\<close>, a parameter of the model)\<close>

text \<open>
  The standard library's regular expressions are not part of the repository. A match
  object is the function \<^verbatim>\<open>match.group(name)\<close> on the named groups: the captured text, or
  \<open>None\<close> for a group that did not take part in the match. A compiled pattern is its
  \<^verbatim>\<open>groupindex\<close> (the names of its groups, in the order in which iterating the dictionary
  yields them: the order in which the groups open in the pattern; a dictionary has no
  duplicate keys) and its \<^verbatim>\<open>search\<close> method. \<^verbatim>\<open>re.compile\<close> itself is the parameter
  \<open>compile\<close> of the functions below; \<open>None\<close> stands for \<^verbatim>\<open>RegexpCompileError\<close>.
\<close>

type_synonym rmatch = "string \<Rightarrow> string option"

record regex =
  groupindex :: "string list"
  search :: "string \<Rightarrow> rmatch option"

subsection \<open>\<^verbatim>\<open>AppRule\<close>\<close>

text \<open>
  A result key is the tuple of the values of the key groups, each a string or \<^verbatim>\<open>None\<close>.
  The \<^verbatim>\<open>results\<close> dictionary is an association list in insertion order, the order in
  which Python iterates it.
\<close>

type_synonym result_key = "string option list"

record AppRule =
  name :: string
  regexp :: regex
  filter_keys :: "string list"
  full_match :: bool
  used_by_report :: bool
  results :: "(result_key \<times> int) list"
  key_gids :: "string list"
  last_idx :: "result_key option"

text \<open>The loop of \<^verbatim>\<open>AppRule.__init__\<close> that collects the key groups.\<close>

definition collect_key_gids :: "regex \<Rightarrow> string list" where
  "collect_key_gids re =
     foldl (\<lambda>key_gids gid. if gid \<noteq> ''host'' then key_gids @ [gid] else key_gids)
       [''host''] (groupindex re)"

text \<open>The check \<^verbatim>\<open>if not self.key_gids: raise LogRaptorConfigError(...)\<close>.\<close>

definition check_key_gids :: "string list \<Rightarrow> error + string list" where
  "check_key_gids kg =
     (if kg = [] then Inl (LogRaptorConfigError ''rule gids set empty!'') else Inr kg)"

text \<open>
  \<^verbatim>\<open>AppRule.__init__(name, pattern, args, filter_keys=None)\<close>. The field
  \<^verbatim>\<open>self.filter_keys\<close> is \<^verbatim>\<open>filter_keys or []\<close>, so it is never \<^verbatim>\<open>None\<close> afterwards; the
  field \<^verbatim>\<open>self.full_match\<close> is \<^verbatim>\<open>filter_keys is not None\<close>. The argument \<^verbatim>\<open>args\<close> is only
  stored (\<^verbatim>\<open>is_used\<close> below is its one reader) and is passed where it is read.
\<close>

definition AppRule_init ::
  "(string \<Rightarrow> regex option) \<Rightarrow> string \<Rightarrow> string \<Rightarrow> string list option \<Rightarrow> error + AppRule" where
  "AppRule_init compile nm pattern fkeys =
     (if pattern = [] then Inl (LogRaptorConfigError ''empty rule'')
      else case compile pattern of
        None \<Rightarrow> Inl (LogRaptorConfigError ''illegal regex pattern'')
      | Some re \<Rightarrow>
          (case check_key_gids (collect_key_gids re) of
             Inl e \<Rightarrow> Inl e
           | Inr kg \<Rightarrow>
               Inr \<lparr> name = nm, regexp = re,
                     filter_keys = (case fkeys of None \<Rightarrow> [] | Some ks \<Rightarrow> ks),
                     full_match = (fkeys \<noteq> None),
                     used_by_report = False,
                     results = [],
                     key_gids = kg,
                     last_idx = None \<rparr>))"

subsection \<open>Sequencing of computations that can raise\<close>

definition and_then :: "error + 'a \<Rightarrow> ('a \<Rightarrow> error + 'b) \<Rightarrow> error + 'b" where
  "and_then m f = (case m of Inl e \<Rightarrow> Inl e | Inr x \<Rightarrow> f x)"

subsection \<open>Events, the name cache and the command line arguments\<close>

text \<open>
  The parsed event (\<^verbatim>\<open>log_data\<close>, a named tuple built by the format parser). For
  \<open>host\<close>, \<open>apptag\<close> and \<open>repeat\<close>, an attribute that the tuple does not have and an
  attribute that is \<^verbatim>\<open>None\<close> are both \<open>None\<close> here; \<open>repeat\<close> is the number that
  \<^verbatim>\<open>int(log_data.repeat)\<close> reads. For \<open>year\<close> the two differ in the code (the default of
  \<^verbatim>\<open>getattr\<close> applies only to a missing attribute): \<open>None\<close> is a tuple without the
  attribute, \<open>Some None\<close> an attribute that is \<^verbatim>\<open>None\<close>, and \<open>Some (Some y)\<close> the year
  that \<^verbatim>\<open>int(year)\<close> reads.
\<close>

record log_data =
  host :: "string option"
  apptag :: "string option"
  month :: string
  day :: string
  ltime :: string
  year :: "int option option"
  message :: string
  repeat :: "int option"

type_synonym rvalues = "string \<rightharpoonup> string option"

text \<open>
  The name cache (module \<^verbatim>\<open>cache\<close>, outside the repository files at hand) does the
  anonymisation; its three methods that \<^verbatim>\<open>process\<close> calls are parameters.
\<close>

record NameCache =
  match_to_dict :: "rmatch \<Rightarrow> string list \<Rightarrow> rvalues"
  map_value :: "string option \<Rightarrow> string \<Rightarrow> string option"
  match_to_string :: "rmatch \<Rightarrow> string list \<Rightarrow> rvalues \<Rightarrow> string"

record map_dict =
  md_host :: "string option"
  md_message :: string

text \<open>
  A filter group (an element of \<^verbatim>\<open>args.filters\<close>) maps field names to patterns. Only the
  options that the two modules read are in \<open>Args\<close>; \<open>report\<close> is \<^verbatim>\<open>args.report is not None\<close>
  and \<open>timerange\<close> is the method \<^verbatim>\<open>args.timerange.between\<close>, when the option is given.
\<close>

type_synonym filter_group = "(string \<times> string) list"

record Args =
  filters :: "filter_group list"
  thread :: bool
  unparsed :: bool
  quiet :: bool
  count :: bool
  max_count :: "int option"
  line_number :: bool
  use_rules :: bool
  invert :: bool
  report :: bool
  timerange :: "(string \<Rightarrow> bool) option"

subsection \<open>\<^verbatim>\<open>AppRule\<close>: results\<close>

text \<open>
  \<^verbatim>\<open>AppRule.add_result(values)\<close>: the key is \<^verbatim>\<open>values['host']\<close> followed by
  \<^verbatim>\<open>values[gid]\<close> for the key groups after the first; a missing entry raises
  \<^verbatim>\<open>KeyError\<close>. A new key is appended to the dictionary with count 1.
\<close>

definition add_result :: "AppRule \<Rightarrow> rvalues \<Rightarrow> error + AppRule" where
  "add_result rule vals =
     (case those (map vals (''host'' # tl (key_gids rule))) of
        None \<Rightarrow> Inl KeyError
      | Some idx \<Rightarrow>
          Inr (rule\<lparr> results :=
                        (case map_of (results rule) idx of
                           Some c \<Rightarrow> AList.update idx (c + 1) (results rule)
                         | None \<Rightarrow> AList.update idx 1 (results rule)),
                     last_idx := Some idx \<rparr>))"

text \<open>
  \<^verbatim>\<open>AppRule.increase_last(k)\<close>: \<^verbatim>\<open>self.results[idx] += k\<close> when \<^verbatim>\<open>_last_idx\<close> is set
  (\<^verbatim>\<open>KeyError\<close> if the key were not in the dictionary).
\<close>

definition increase_last :: "AppRule \<Rightarrow> int \<Rightarrow> error + AppRule" where
  "increase_last rule k =
     (case last_idx rule of
        None \<Rightarrow> Inr rule
      | Some idx \<Rightarrow>
          (case map_of (results rule) idx of
             None \<Rightarrow> Inl KeyError
           | Some c \<Rightarrow> Inr (rule\<lparr> results := AList.update idx (c + k) (results rule) \<rparr>)))"

text \<open>
  \<^verbatim>\<open>AppRule.is_used()\<close>: the expression begins with \<^verbatim>\<open>True or\<close>, so Python evaluates
  nothing else.
\<close>

definition is_used :: "Args \<Rightarrow> AppRule \<Rightarrow> bool" where
  "is_used args rule \<longleftrightarrow>
     True \<or> filters args = [] \<or> filter_keys rule \<noteq> []
     \<or> (thread args \<and> ''thread'' \<in> set (groupindex (regexp rule)))
     \<or> used_by_report rule \<or> unparsed args"

subsection \<open>\<^verbatim>\<open>AppRule.top_events\<close>\<close>

text \<open>
  A slot of the list \<^verbatim>\<open>top\<close> is \<^verbatim>\<open>None\<close> or the pair \<^verbatim>\<open>[tot, [values]]\<close>. Python's
  \<^verbatim>\<open>int(...)\<close> on a string is the parameter \<open>pyint\<close> (\<open>None\<close>: \<^verbatim>\<open>ValueError\<close>);
  \<^verbatim>\<open>int(None)\<close> raises \<^verbatim>\<open>TypeError\<close>.
\<close>

type_synonym top_slot = "(int \<times> string option list) option"

definition py_int :: "(string \<Rightarrow> int option) \<Rightarrow> string option \<Rightarrow> error + int" where
  "py_int pyint v =
     (case v of
        None \<Rightarrow> Inl TypeError
      | Some s \<Rightarrow> (case pyint s of None \<Rightarrow> Inl ValueError | Some n \<Rightarrow> Inr n))"

text \<open>\<^verbatim>\<open>list.index(x)\<close>: the first position of \<open>x\<close>, or \<^verbatim>\<open>ValueError\<close>.\<close>

definition index_of :: "string list \<Rightarrow> string \<Rightarrow> error + nat" where
  "index_of xs x =
     (if x \<in> set xs then Inr (length (takeWhile (\<lambda>y. y \<noteq> x) xs)) else Inl ValueError)"

text \<open>\<^verbatim>\<open>key[pos]\<close> on a tuple, \<open>pos\<close> not negative.\<close>

definition key_at :: "result_key \<Rightarrow> nat \<Rightarrow> error + string option" where
  "key_at key pos = (if pos < length key then Inr (key ! pos) else Inl IndexError)"

text \<open>The slices \<^verbatim>\<open>xs[:num]\<close> (and \<^verbatim>\<open>del xs[num:]\<close>, which leaves \<^verbatim>\<open>xs[:num]\<close>).\<close>

definition py_take :: "int \<Rightarrow> 'a list \<Rightarrow> 'a list" where
  "py_take num xs =
     (if 0 \<le> num then take (nat num) xs else take (length xs - nat (- num)) xs)"

text \<open>
  The inner function \<^verbatim>\<open>classify\<close>: the loop \<^verbatim>\<open>for j in range(num)\<close> with its three
  \<^verbatim>\<open>break\<close>s. \<^verbatim>\<open>top.insert(j, ...)\<close> makes the list one longer.
\<close>

fun classify_range :: "nat list \<Rightarrow> int \<Rightarrow> string \<Rightarrow> top_slot list \<Rightarrow> error + top_slot list" where
  "classify_range [] tot v tops = Inr tops"
| "classify_range (j # js) tot v tops =
     (if length tops \<le> j then Inl IndexError
      else case tops ! j of
        None \<Rightarrow> Inr (tops[j := Some (tot, [Some v])])
      | Some (t, vs) \<Rightarrow>
          if tot = t then Inr (tops[j := Some (t, vs @ [Some v])])
          else if tot > t then Inr (take j tops @ Some (tot, [Some v]) # drop j tops)
          else classify_range js tot v tops)"

definition classify :: "int \<Rightarrow> int \<Rightarrow> string option \<Rightarrow> top_slot list \<Rightarrow> error + top_slot list" where
  "classify num tot val tops =
     (case val of None \<Rightarrow> Inr tops | Some v \<Rightarrow> classify_range [0..<nat num] tot v tops)"

text \<open>
  The weight of a key: \<^verbatim>\<open>results[key]\<close>, or \<^verbatim>\<open>results[key] * int(key[val])\<close> when a
  value field is given.
\<close>

definition key_weight ::
  "(string \<Rightarrow> int option) \<Rightarrow> nat option \<Rightarrow> result_key \<Rightarrow> int \<Rightarrow> error + int" where
  "key_weight pyint val key c =
     (case val of
        None \<Rightarrow> Inr c
      | Some v \<Rightarrow> and_then (key_at key v) (\<lambda>x. and_then (py_int pyint x) (\<lambda>n. Inr (c * n))))"

text \<open>
  The loop over the sorted keys, with the \<^verbatim>\<open>else\<close> branch of the \<^verbatim>\<open>for\<close> (which runs
  when the loop ends, there being no \<^verbatim>\<open>break\<close>) as the case of the empty list.
\<close>

fun top_loop ::
  "(string \<Rightarrow> int option) \<Rightarrow> int \<Rightarrow> nat \<Rightarrow> nat option \<Rightarrow> (result_key \<times> int) list
     \<Rightarrow> string option \<Rightarrow> int \<Rightarrow> top_slot list \<Rightarrow> error + top_slot list" where
  "top_loop pyint num pos val [] value tot tops = classify num tot value tops"
| "top_loop pyint num pos val ((key, c) # rest) value tot tops =
     and_then (key_at key pos) (\<lambda>kv.
       if value = None \<or> value \<noteq> kv then
         and_then (classify num tot value tops) (\<lambda>tops'.
         and_then (key_weight pyint val key c) (\<lambda>w.
           top_loop pyint num pos val rest kv w tops'))
       else
         and_then (key_weight pyint val key c) (\<lambda>w.
           top_loop pyint num pos val rest value (tot + w) tops))"

text \<open>
  The loop of the branch for \<^verbatim>\<open>usemax\<close>: \<^verbatim>\<open>top[i] = [int(key[val]), [key[pos]]]\<close>.
\<close>

fun max_loop :: "nat \<Rightarrow> (int \<times> string option) list \<Rightarrow> top_slot list \<Rightarrow> error + top_slot list" where
  "max_loop i [] tops = Inr tops"
| "max_loop i ((n, g) # rest) tops =
     (if length tops \<le> i then Inl IndexError
      else max_loop (Suc i) rest (tops[i := Some (n, [g])]))"

text \<open>
  Sorting. \<^verbatim>\<open>sorted\<close> is stable, and so is \<open>sort_key\<close>; with \<^verbatim>\<open>reverse=True\<close> the
  elements that compare equal keep their order, which is sorting the reversed list and
  reversing the result. Strings compare by code point. Comparing \<^verbatim>\<open>None\<close> with a string or
  with \<^verbatim>\<open>None\<close> by \<^verbatim>\<open><\<close> raises \<^verbatim>\<open>TypeError\<close>: a sort of two or more keys compares each
  of them at least once, so it raises as soon as one group value is \<^verbatim>\<open>None\<close>. Tuples
  compare their first components that differ, so the sort for \<^verbatim>\<open>usemax\<close> raises when two
  keys have the same number and different group values one of which is \<^verbatim>\<open>None\<close>. Where
  the sort does not raise, \<^verbatim>\<open>None\<close> is only compared (as equal) with \<^verbatim>\<open>None\<close>, and the
  empty string can stand for it in the sort key.
\<close>

definition group_key :: "string option \<Rightarrow> string" where
  "group_key g = (case g of None \<Rightarrow> [] | Some s \<Rightarrow> s)"

definition sorted_by_group ::
  "nat \<Rightarrow> (result_key \<times> int) list \<Rightarrow> error + (result_key \<times> int) list" where
  "sorted_by_group pos items =
     (if \<exists>(key, c) \<in> set items. length key \<le> pos then Inl IndexError
      else if 2 \<le> length items \<and> (\<exists>(key, c) \<in> set items. key ! pos = None) then Inl TypeError
      else Inr (sort_key (\<lambda>(key, c). group_key (key ! pos)) items))"

definition sorted_by_max ::
  "(int \<times> string option) list \<Rightarrow> error + (int \<times> string option) list" where
  "sorted_by_max ks =
     (if \<exists>(n, g) \<in> set ks. \<exists>(n', g') \<in> set ks. n = n' \<and> g \<noteq> g' \<and> g = None then Inl TypeError
      else Inr (rev (sort_key (\<lambda>(n, g). (n, group_key g)) (rev ks))))"

fun max_keys ::
  "(string \<Rightarrow> int option) \<Rightarrow> nat \<Rightarrow> nat \<Rightarrow> (result_key \<times> int) list
     \<Rightarrow> error + (int \<times> string option) list" where
  "max_keys pyint val pos [] = Inr []"
| "max_keys pyint val pos ((key, c) # rest) =
     and_then (key_at key val) (\<lambda>x.
     and_then (py_int pyint x) (\<lambda>n.
     and_then (key_at key pos) (\<lambda>g.
     and_then (max_keys pyint val pos rest) (\<lambda>ks. Inr ((n, g) # ks)))))"

definition not_none :: "top_slot list \<Rightarrow> (int \<times> string option list) list" where
  "not_none tops = map the (filter (\<lambda>res. res \<noteq> None) tops)"

definition top_events ::
  "(string \<Rightarrow> int option) \<Rightarrow> AppRule \<Rightarrow> int \<Rightarrow> string option \<Rightarrow> bool \<Rightarrow> string
     \<Rightarrow> error + (int \<times> string option list) list" where
  "top_events pyint rule num valfld usemax gid =
     (if results rule = [] then Inr []
      else
        let tops = replicate (nat num) None in
        and_then (index_of (key_gids rule) gid) (\<lambda>pos.
        and_then (case valfld of
                    None \<Rightarrow> Inr None
                  | Some f \<Rightarrow> and_then (index_of (key_gids rule) f) (\<lambda>v. Inr (Some v))) (\<lambda>val.
          if val \<noteq> None \<and> usemax then
            and_then (max_keys pyint (the val) pos (results rule)) (\<lambda>ks.
            and_then (sorted_by_max ks) (\<lambda>sorted_ks.
            and_then (max_loop 0 (py_take num sorted_ks) tops) (\<lambda>tops'.
              Inr (not_none tops'))))
          else
            and_then (sorted_by_group pos (results rule)) (\<lambda>items.
            and_then (top_loop pyint num pos val items None 0 tops) (\<lambda>tops'.
              Inr (not_none (py_take num tops')))))))"

subsection \<open>The ranking that \<^verbatim>\<open>top_events\<close> is to compute\<close>

text \<open>
  These definitions follow the words of the specification, not the code, and are what
  the code is compared with: "iterate result keys sorted by the group field, accumulate
  running totals per distinct group value, and insert each completed group's total into
  a descending-ranked list of size \<open>n\<close>, where exact ties append the new group value
  into the same rank slot instead of creating a new one".

  \<open>group_counts\<close> projects each result key to its group value, with its count;
  \<open>group_runs\<close> adds up the counts of each run of equal group values; \<open>rank_insert\<close>
  puts a group with its total into a ranking whose totals descend, a tie joining the
  slot of its total; \<open>ranking\<close> does so for all groups in their order; and
  \<open>top_ranking\<close> is the first \<open>n\<close> slots of the ranking of the groups of the sorted
  table. \<open>group_total\<close> is the total of one group value in a table.
\<close>

definition group_counts :: "nat \<Rightarrow> (result_key \<times> int) list \<Rightarrow> (string \<times> int) list" where
  "group_counts pos items = map (\<lambda>(key, c). (group_key (key ! pos), c)) items"

fun group_runs_from :: "string \<Rightarrow> int \<Rightarrow> (string \<times> int) list \<Rightarrow> (string \<times> int) list" where
  "group_runs_from g tot [] = [(g, tot)]"
| "group_runs_from g tot ((h, c) # rest) =
     (if h = g then group_runs_from g (tot + c) rest else (g, tot) # group_runs_from h c rest)"

definition group_runs :: "(string \<times> int) list \<Rightarrow> (string \<times> int) list" where
  "group_runs xs = (case xs of [] \<Rightarrow> [] | (g, c) # rest \<Rightarrow> group_runs_from g c rest)"

fun rank_insert ::
  "int \<Rightarrow> string \<Rightarrow> (int \<times> string option list) list \<Rightarrow> (int \<times> string option list) list" where
  "rank_insert t v [] = [(t, [Some v])]"
| "rank_insert t v ((t', vs) # rest) =
     (if t = t' then (t', vs @ [Some v]) # rest
      else if t' < t then (t, [Some v]) # (t', vs) # rest
      else (t', vs) # rank_insert t v rest)"

definition ranking ::
  "(int \<times> string option list) list \<Rightarrow> (string \<times> int) list \<Rightarrow> (int \<times> string option list) list" where
  "ranking r gs = foldl (\<lambda>r (g, t). rank_insert t g r) r gs"

definition top_ranking ::
  "int \<Rightarrow> nat \<Rightarrow> (result_key \<times> int) list \<Rightarrow> (int \<times> string option list) list" where
  "top_ranking num pos items =
     take (nat num)
       (ranking [] (group_runs (group_counts pos
          (sort_key (\<lambda>(key, c). group_key (key ! pos)) items))))"

definition group_total :: "nat \<Rightarrow> string \<Rightarrow> (result_key \<times> int) list \<Rightarrow> int" where
  "group_total pos g items =
     sum_list (map snd (filter (\<lambda>(key, c). key ! pos = Some g) items))"

subsection \<open>\<^verbatim>\<open>AppLogParser\<close>\<close>

text \<open>
  The application object. \<^verbatim>\<open>_last_rule\<close> refers to one of the objects of the list
  \<^verbatim>\<open>rules\<close>, which does not change after the constructor: it is the index of that rule.
  \<open>p_thread\<close> is \<^verbatim>\<open>self._thread\<close> and \<open>p_report\<close> is the truth value of \<^verbatim>\<open>self._report\<close>.
\<close>

record AppLogParser =
  app_name :: string
  rules :: "AppRule list"
  has_filters :: bool
  counter :: int
  unparsed_counter :: int
  p_last_rule :: "nat option"
  p_thread :: bool
  p_report :: bool
  name_cache :: "NameCache option"

text \<open>
  \<^verbatim>\<open>AppLogParser.parse_rules\<close>. The rule options of the configuration file are the pairs
  \<open>(option, value)\<close>. \<^verbatim>\<open>exact_sub\<close> of the module \<^verbatim>\<open>utils\<close> and the substitution
  \<^verbatim>\<open>string.Template(pattern).safe_substitute(self.fields)\<close> are the parameters
  \<open>exact_sub\<close> and \<open>substitute\<close>.
\<close>

fun filter_group_rules ::
  "(string \<Rightarrow> regex option) \<Rightarrow> (string \<Rightarrow> filter_group \<Rightarrow> string \<times> string list)
     \<Rightarrow> (string \<Rightarrow> string) \<Rightarrow> bool \<Rightarrow> string \<Rightarrow> string \<Rightarrow> filter_group list
     \<Rightarrow> AppRule list \<Rightarrow> error + AppRule list" where
  "filter_group_rules compile exact_sub substitute thr opt pattern [] rs = Inr rs"
| "filter_group_rules compile exact_sub substitute thr opt pattern (fg # fgs) rs =
     (let (p, fkeys) = exact_sub pattern fg;
          p' = substitute p
      in if length fkeys \<ge> length fg then
           and_then (AppRule_init compile opt p' (Some fkeys)) (\<lambda>r.
             filter_group_rules compile exact_sub substitute thr opt pattern fgs (rs @ [r]))
         else if thr then
           and_then (AppRule_init compile opt p' None) (\<lambda>r.
             filter_group_rules compile exact_sub substitute thr opt pattern fgs (rs @ [r]))
         else filter_group_rules compile exact_sub substitute thr opt pattern fgs rs)"

fun parse_rules_loop ::
  "(string \<Rightarrow> regex option) \<Rightarrow> (string \<Rightarrow> filter_group \<Rightarrow> string \<times> string list)
     \<Rightarrow> (string \<Rightarrow> string) \<Rightarrow> Args \<Rightarrow> (string \<times> string) list
     \<Rightarrow> AppRule list \<Rightarrow> error + AppRule list" where
  "parse_rules_loop compile exact_sub substitute args [] rs = Inr rs"
| "parse_rules_loop compile exact_sub substitute args ((opt, val) # rest) rs =
     (let pattern = filter (\<lambda>c. c \<noteq> CHR 0x0A) val
      in if filters args = [] then
           and_then (AppRule_init compile opt (substitute pattern) None) (\<lambda>r.
             parse_rules_loop compile exact_sub substitute args rest (rs @ [r]))
         else
           and_then (filter_group_rules compile exact_sub substitute (thread args)
                       opt pattern (filters args) rs) (\<lambda>rs'.
             parse_rules_loop compile exact_sub substitute args rest rs'))"

definition parse_rules ::
  "(string \<Rightarrow> regex option) \<Rightarrow> (string \<Rightarrow> filter_group \<Rightarrow> string \<times> string list)
     \<Rightarrow> (string \<Rightarrow> string) \<Rightarrow> Args \<Rightarrow> (string \<times> string) list option
     \<Rightarrow> error + AppRule list" where
  "parse_rules compile exact_sub substitute args rule_options =
     (case rule_options of
        None \<Rightarrow> Inl (LogRaptorConfigError ''the app has no defined rules!'')
      | Some opts \<Rightarrow> parse_rules_loop compile exact_sub substitute args opts [])"

text \<open>
  \<^verbatim>\<open>AppLogParser.__init__\<close>, the part that builds the rules: parse them, purge the unused
  ones, set \<^verbatim>\<open>has_filters\<close>, and either sort the rules by their filter keys or set
  \<^verbatim>\<open>full_match\<close> on all of them. (The report data, the tags and the files of the
  application are read from configuration objects that are not modelled.)
\<close>

definition AppLogParser_init ::
  "(string \<Rightarrow> regex option) \<Rightarrow> (string \<Rightarrow> filter_group \<Rightarrow> string \<times> string list)
     \<Rightarrow> (string \<Rightarrow> string) \<Rightarrow> string \<Rightarrow> Args \<Rightarrow> NameCache option
     \<Rightarrow> (string \<times> string) list option \<Rightarrow> error + AppLogParser" where
  "AppLogParser_init compile exact_sub substitute nm args nc rule_options =
     and_then (parse_rules compile exact_sub substitute args rule_options) (\<lambda>rules0.
       let rules1 = filter (is_used args) rules0;
           hf = (\<exists>rule \<in> set rules1. filter_keys rule \<noteq> [])
       in Inr \<lparr> app_name = nm,
                rules = (if hf then sort_key filter_keys rules1
                         else map (\<lambda>rule. rule\<lparr> full_match := True \<rparr>) rules1),
                has_filters = hf,
                counter = 0,
                unparsed_counter = 0,
                p_last_rule = None,
                p_thread = thread args,
                p_report = report args,
                name_cache = nc \<rparr>)"

text \<open>\<^verbatim>\<open>AppLogParser.increase_last(k)\<close>.\<close>

definition app_increase_last :: "AppLogParser \<Rightarrow> int \<Rightarrow> error + AppLogParser" where
  "app_increase_last app k =
     (case p_last_rule app of
        None \<Rightarrow> Inr app
      | Some i \<Rightarrow>
          and_then (increase_last (rules app ! i) k) (\<lambda>rule.
            Inr (app\<lparr> rules := (rules app)[i := rule] \<rparr>)))"

subsection \<open>\<^verbatim>\<open>AppLogParser.process\<close>\<close>

text \<open>
  The outcome is the tuple \<^verbatim>\<open>(rule_match, full_match, app_thread, map_dict)\<close>.
\<close>

type_synonym outcome = "bool \<times> bool option \<times> string option \<times> map_dict option"

text \<open>The dictionary \<^verbatim>\<open>values\<close> and \<^verbatim>\<open>map_dict\<close>, with or without a name cache.\<close>

definition extract_values ::
  "NameCache option \<Rightarrow> AppRule \<Rightarrow> rmatch \<Rightarrow> log_data \<Rightarrow> rvalues \<times> map_dict option" where
  "extract_values nc rule m logdata =
     (let gids = groupindex (regexp rule) in
      case nc of
        Some c \<Rightarrow>
          (let vals0 = match_to_dict c m (key_gids rule);
               h = map_value c (host logdata) ''host'';
               vals = vals0(''host'' \<mapsto> h)
           in (vals, Some \<lparr> md_host = h, md_message = match_to_string c m gids vals \<rparr>))
      | None \<Rightarrow>
          (foldl (\<lambda>vals gid. vals(gid \<mapsto> m gid)) [''host'' \<mapsto> host logdata] gids, None))"

text \<open>
  \<^verbatim>\<open>any([values[key] is None for key in rule.filter_keys])\<close>: the list is built first, so
  a key that \<^verbatim>\<open>values\<close> does not have raises \<^verbatim>\<open>KeyError\<close>.
\<close>

definition any_filter_key_null :: "rvalues \<Rightarrow> string list \<Rightarrow> error + bool" where
  "any_filter_key_null vals keys =
     (if \<exists>key \<in> set keys. vals key = None then Inl KeyError
      else Inr (\<exists>key \<in> set keys. vals key = Some None))"

text \<open>
  The body of \<^verbatim>\<open>if match is not None:\<close> for the rule at index \<open>i\<close>. The test
  \<^verbatim>\<open>rule.filter_keys is not None\<close> is always true (see \<open>AppRule_init\<close>), which also makes
  the condition of the \<^verbatim>\<open>elif\<close> before \<^verbatim>\<open>add_result\<close> in the second branch true.
\<close>

definition rule_matched ::
  "AppLogParser \<Rightarrow> log_data \<Rightarrow> nat \<Rightarrow> AppRule \<Rightarrow> rmatch \<Rightarrow> error + (outcome \<times> AppLogParser)" where
  "rule_matched app logdata i rule m =
     (let gids = groupindex (regexp rule);
          app1 = app\<lparr> p_last_rule := Some i \<rparr>;
          (vals, mapd) = extract_values (name_cache app) rule m logdata
      in if p_thread app \<and> ''thread'' \<in> set gids then
           (let thread_id = m ''thread'' in
            and_then (any_filter_key_null vals (filter_keys rule)) (\<lambda>rejected.
              if True \<and> rejected then Inr ((False, None, None, None), app1)
              else if p_report app then
                and_then (add_result rule vals) (\<lambda>rule'.
                  Inr ((True, Some (full_match rule'), thread_id, mapd),
                       app1\<lparr> rules := (rules app1)[i := rule'] \<rparr>))
              else Inr ((True, Some (full_match rule), thread_id, mapd), app1)))
         else
           and_then (any_filter_key_null vals (filter_keys rule)) (\<lambda>rejected.
             if True \<and> rejected then Inr ((False, None, None, None), app1)
             else if p_report app \<or> (True \<or> \<not> has_filters app) then
               and_then (add_result rule vals) (\<lambda>rule'.
                 Inr ((True, Some (full_match rule'), None, mapd),
                      app1\<lparr> rules := (rules app1)[i := rule'] \<rparr>))
             else Inr ((True, Some (full_match rule), None, mapd), app1)))"

text \<open>
  The loop \<^verbatim>\<open>for rule in self.rules\<close>: \<open>i\<close> is the index of the first rule of the rest
  \<open>rs\<close>. After the loop no rule has matched.
\<close>

fun process_rules ::
  "AppLogParser \<Rightarrow> log_data \<Rightarrow> nat \<Rightarrow> AppRule list \<Rightarrow> error + (outcome \<times> AppLogParser)" where
  "process_rules app logdata i [] =
     Inr ((False, None, None, None),
          app\<lparr> p_last_rule := None,
               unparsed_counter :=
                 (if \<not> has_filters app then unparsed_counter app + 1 else unparsed_counter app) \<rparr>)"
| "process_rules app logdata i (rule # rs) =
     (case search (regexp rule) (message logdata) of
        Some m \<Rightarrow> rule_matched app logdata i rule m
      | None \<Rightarrow> process_rules app logdata (Suc i) rs)"

definition process :: "AppLogParser \<Rightarrow> log_data \<Rightarrow> error + (outcome \<times> AppLogParser)" where
  "process app logdata = process_rules app logdata 0 (rules app)"

section \<open>The matcher engine (\<^verbatim>\<open>matcher.py\<close>)\<close>

subsection \<open>Values of the engine\<close>

text \<open>
  An application object is a reference (a number) into the store of applications. The
  source uses a value of the tag map, \<^verbatim>\<open>tagmap[apptag]\<close>, as an application in one place
  (the branch for repeated messages calls \<^verbatim>\<open>increase_last\<close> on it) and as a list of
  applications in another (the resolution of the application takes its \<^verbatim>\<open>len\<close> and its
  element 0). The model therefore keeps Python's dynamic types for these values and for
  the variable \<^verbatim>\<open>app\<close>: an attribute of an application that is read on a list raises
  \<^verbatim>\<open>AttributeError\<close>; \<^verbatim>\<open>len\<close> of, or iteration over, an application raises
  \<^verbatim>\<open>TypeError\<close> (\<^verbatim>\<open>AppLogParser\<close> defines neither).
\<close>

datatype pyval = PyApp nat | PyList "nat list"

text \<open>
  A match of a content pattern is the text that it matched. An event sent to the
  dispatcher is a line event (\<^verbatim>\<open>filename, line_number, log_data, rawlog,
  pattern_match\<close>) or the summary of count mode (\<^verbatim>\<open>filename, counter\<close>). A line given to
  the thread cache is recorded with the arguments of \<^verbatim>\<open>add_line\<close>.
\<close>

type_synonym pmatch = string

datatype event =
    LineEvent string "int option" log_data string "pmatch option"
  | CountEvent string int

type_synonym cache_line = "string \<times> string \<times> pmatch option \<times> bool option \<times> int"

definition MONTHMAP :: "(string \<times> string) list" where
  "MONTHMAP =
     [(''Jan'', ''01''), (''Feb'', ''02''), (''Mar'', ''03''), (''Apr'', ''04''),
      (''May'', ''05''), (''Jun'', ''06''), (''Jul'', ''07''), (''Aug'', ''08''),
      (''Sep'', ''09''), (''Oct'', ''10''), (''Nov'', ''11''), (''Dec'', ''12''),
      (''01'', ''01''), (''02'', ''02''), (''03'', ''03''), (''04'', ''04''),
      (''05'', ''05''), (''06'', ''06''), (''07'', ''07''), (''08'', ''08''),
      (''09'', ''09''), (''10'', ''10''), (''11'', ''11''), (''12'', ''12'')]"

text \<open>
  The collaborators that are outside the two modules, as parameters: the format parsers
  (\<open>parser_match p line\<close> is \<^verbatim>\<open>get_data\<close> of the match of the parser \<open>p\<close>;
  \<open>parser_detect p line\<close> is \<^verbatim>\<open>parsers.detect(line)\<close> with the data of its match;
  \<open>parser_app p\<close> is \<^verbatim>\<open>log_parser.app\<close>; \<open>first_parser\<close> is \<^verbatim>\<open>next(parsers)\<close>), the two
  calls of \<^verbatim>\<open>name_cache.map2str\<close>, \<^verbatim>\<open>time.mktime\<close> on the year, the two-digit month, the
  day and the time of day (times are whole seconds), and the thread cache of an
  application (\<^verbatim>\<open>purge_threads\<close>, and the two flushes, which return the number of lines
  they emitted).
\<close>

record collaborators =
  parser_match :: "nat \<Rightarrow> string \<Rightarrow> log_data option"
  parser_detect :: "nat \<Rightarrow> string \<Rightarrow> (nat \<times> log_data) option"
  parser_app :: "nat \<Rightarrow> pyval option"
  first_parser :: nat
  map2str :: "nat \<Rightarrow> string \<Rightarrow> map_dict \<Rightarrow> string"
  map2str_header :: "nat \<Rightarrow> string \<Rightarrow> map_dict \<Rightarrow> string"
  mktime :: "int \<Rightarrow> string \<Rightarrow> string \<Rightarrow> string \<Rightarrow> int"
  purge_threads :: "cache_line list \<Rightarrow> int \<Rightarrow> cache_line list"
  flush_old_cache :: "cache_line list \<Rightarrow> int \<Rightarrow> bool \<Rightarrow> int option \<Rightarrow> int \<times> cache_line list"
  flush_cache :: "cache_line list \<Rightarrow> int \<Rightarrow> bool \<Rightarrow> int option \<Rightarrow> int \<times> cache_line list"

text \<open>
  The \<^verbatim>\<open>Lograptor\<close> instance \<^verbatim>\<open>obj\<close>, as far as \<^verbatim>\<open>create_matcher_engine\<close> reads it. The
  two bounds are already times; a host pattern is the test
  \<^verbatim>\<open>host_pattern.search(hostname) is not None\<close>.
\<close>

record Lograptor =
  args :: Args
  tagmap :: "(string \<times> pyval) list"
  hosts :: "(string \<Rightarrow> bool) list"
  patterns :: "(string \<Rightarrow> pmatch option) list"
  initial_dt :: "int option"
  final_dt :: "int option"

text \<open>
  The variables of the closure: what \<^verbatim>\<open>create_matcher_engine\<close> computes before it
  defines \<^verbatim>\<open>process_logfile\<close> (with the prefix \<open>e_\<close>, the names being those of the
  options).
\<close>

record engine =
  e_ext :: collaborators
  e_line_number :: bool
  e_tagmap :: "(string \<times> pyval) list"
  e_max_count :: "int option"
  e_use_rules :: bool
  e_hosts :: "(string \<Rightarrow> bool) list"
  e_patterns :: "(string \<Rightarrow> pmatch option) list"
  e_thread :: bool
  e_send_selected :: bool
  e_invert :: bool
  e_count :: bool
  e_match_unparsed :: bool
  e_make_report :: bool
  e_timerange :: "(string \<Rightarrow> bool) option"
  e_initial_dt :: int
  e_final_dt :: int

text \<open>
  \<^verbatim>\<open>create_matcher_engine(obj, parsers)\<close>. The default final bound is
  \<^verbatim>\<open>time.mktime((2222, 2, 2, 0, 0, 0, 0, 0, 0))\<close>, here in UTC.
\<close>

definition create_matcher_engine :: "collaborators \<Rightarrow> Lograptor \<Rightarrow> engine" where
  "create_matcher_engine ext obj =
     \<lparr> e_ext = ext,
       e_line_number = line_number (args obj),
       e_tagmap = tagmap obj,
       e_max_count = (if quiet (args obj) then Some 1 else max_count (args obj)),
       e_use_rules = use_rules (args obj),
       e_hosts = hosts obj,
       e_patterns = patterns obj,
       e_thread = thread (args obj),
       e_send_selected = (\<not> (quiet (args obj) \<or> count (args obj))),
       e_invert = invert (args obj),
       e_count = count (args obj),
       e_match_unparsed = unparsed (args obj),
       e_make_report = report (args obj),
       e_timerange = timerange (args obj),
       e_initial_dt = (case initial_dt obj of Some t \<Rightarrow> t | None \<Rightarrow> 0),
       e_final_dt = (case final_dt obj of Some t \<Rightarrow> t | None \<Rightarrow> 7955107200) \<rparr>"

text \<open>
  The log file: its name, its lines, and the modification time of \<^verbatim>\<open>os.fstat\<close> with the
  year and the month that \<^verbatim>\<open>datetime.fromtimestamp\<close> reads from it.
\<close>

record logfile =
  lf_name :: string
  lf_lines :: "string list"
  st_mtime :: int
  file_year :: int
  file_month :: nat

text \<open>
  The state: the local variables of \<^verbatim>\<open>process_logfile\<close> (with the prefix \<open>v_\<close>; a
  variable that is not yet bound is \<open>None\<close> where the code can read it unbound), the set
  \<^verbatim>\<open>hostset\<close> of the closure, the application objects behind the references, the thread
  cache of each application, and the events sent to the dispatcher so far.
\<close>

record state =
  v_first_event :: "int option"
  v_last_event :: "int option"
  v_log_parser :: nat
  v_prev_data :: "log_data option"
  v_app :: "pyval option"
  v_app_thread :: "string option"
  v_matching_counter :: int
  v_unparsed_counter :: int
  v_full_match :: "bool option"
  v_extra_tags :: "string list"
  v_line_counter :: int
  v_line :: string
  v_pattern_match :: "pmatch option"
  v_event_time :: "int option"
  hostset :: "string list"
  apps :: "nat \<Rightarrow> AppLogParser"
  caches :: "nat \<Rightarrow> cache_line list"
  sent :: "event list"

text \<open>
  How an iteration of the loop over the lines ends before its last part: with
  \<^verbatim>\<open>continue\<close>, with \<^verbatim>\<open>break\<close>, or not yet (the line goes on to the next step, with its
  parsed data).
\<close>

datatype flow = Continue | Break | Proceed log_data

definition proceed_then ::
  "error + flow \<times> state \<Rightarrow> (log_data \<Rightarrow> state \<Rightarrow> error + flow \<times> state) \<Rightarrow> error + flow \<times> state" where
  "proceed_then m f =
     and_then m (\<lambda>(fl, st). case fl of Proceed d \<Rightarrow> f d st | Continue \<Rightarrow> Inr (Continue, st)
                                    | Break \<Rightarrow> Inr (Break, st))"

subsection \<open>Attributes of the value of \<^verbatim>\<open>app\<close>\<close>

text \<open>\<^verbatim>\<open>app.counter += 1\<close>.\<close>

definition app_counter_incr :: "state \<Rightarrow> pyval option \<Rightarrow> error + state" where
  "app_counter_incr st v =
     (case v of
        Some (PyApp a) \<Rightarrow>
          Inr (st\<lparr> apps := (apps st)(a := (apps st a)\<lparr> counter := counter (apps st a) + 1 \<rparr>) \<rparr>)
      | _ \<Rightarrow> Inl AttributeError)"

text \<open>\<^verbatim>\<open>app.increase_last(repeat)\<close>.\<close>

definition app_value_increase_last :: "state \<Rightarrow> pyval \<Rightarrow> int \<Rightarrow> error + state" where
  "app_value_increase_last st v k =
     (case v of
        PyApp a \<Rightarrow>
          and_then (app_increase_last (apps st a) k) (\<lambda>app'.
            Inr (st\<lparr> apps := (apps st)(a := app') \<rparr>))
      | PyList as \<Rightarrow> Inl AttributeError)"

text \<open>
  \<^verbatim>\<open>app.cache.add_line(line, app_thread, pattern_match, full_match, event_time)\<close>, where
  it is called (\<^verbatim>\<open>app_thread\<close> is not \<^verbatim>\<open>None\<close> there).
\<close>

definition cache_add_line :: "state \<Rightarrow> pyval option \<Rightarrow> string \<Rightarrow> error + state" where
  "cache_add_line st v thread_id =
     (case v of
        Some (PyApp a) \<Rightarrow>
          (case v_event_time st of
             None \<Rightarrow> Inl UnboundLocalError
           | Some t \<Rightarrow>
               Inr (st\<lparr> caches := (caches st)
                      (a := caches st a @
                         [(v_line st, thread_id, v_pattern_match st, v_full_match st, t)]) \<rparr>))
      | _ \<Rightarrow> Inl AttributeError)"

definition startswith :: "string \<Rightarrow> string \<Rightarrow> bool" where
  "startswith s pre \<longleftrightarrow> take (length pre) s = pre"

subsection \<open>The steps of an iteration\<close>

text \<open>
  Parsing the line: the active parser, or else the detection among the others, which
  changes the active parser when it succeeds.
\<close>

definition parse_line :: "engine \<Rightarrow> state \<Rightarrow> string \<Rightarrow> (nat \<times> log_data) option" where
  "parse_line env st line =
     (case parser_match (e_ext env) (v_log_parser st) line of
        Some d \<Rightarrow> Some (v_log_parser st, d)
      | None \<Rightarrow> parser_detect (e_ext env) (v_log_parser st) line)"

text \<open>
  The lookup of the branch for repeated messages: \<^verbatim>\<open>tagmap[apptag]\<close>, or else the value
  of the first tag that is a prefix of \<^verbatim>\<open>apptag\<close>, or else \<^verbatim>\<open>KeyError\<close>. (Without an
  application tag, \<^verbatim>\<open>tagmap[None]\<close> raises \<^verbatim>\<open>KeyError\<close> and \<^verbatim>\<open>None.startswith\<close> raises
  \<^verbatim>\<open>AttributeError\<close> at the first tag.)
\<close>

definition repeat_tag_lookup :: "(string \<times> pyval) list \<Rightarrow> string option \<Rightarrow> error + pyval" where
  "repeat_tag_lookup tm tag_opt =
     (case tag_opt of
        None \<Rightarrow> (if tm = [] then Inl KeyError else Inl AttributeError)
      | Some t \<Rightarrow>
          (case map_of tm t of
             Some v \<Rightarrow> Inr v
           | None \<Rightarrow>
               (case find (\<lambda>(tag, v). startswith t tag) tm of
                  Some (tag, v) \<Rightarrow> Inr v
                | None \<Rightarrow> Inl KeyError)))"

text \<open>
  The branch \<^verbatim>\<open>if getattr(log_data, 'repeat', None) is not None\<close>, which always ends
  with \<^verbatim>\<open>continue\<close>; \<open>n\<close> is \<^verbatim>\<open>int(log_data.repeat)\<close>.
\<close>

definition repeat_line :: "engine \<Rightarrow> state \<Rightarrow> int \<Rightarrow> error + flow \<times> state" where
  "repeat_line env st n =
     (case v_prev_data st of
        Some prev \<Rightarrow>
          (let st1 = (if \<not> e_thread env
                      then st\<lparr> v_matching_counter := v_matching_counter st + n \<rparr> else st)
           in if e_use_rules env then
                and_then (repeat_tag_lookup (e_tagmap env) (apptag prev)) (\<lambda>v.
                and_then (app_value_increase_last (st1\<lparr> v_app := Some v \<rparr>) v n) (\<lambda>st2.
                and_then (app_counter_incr st2 (Some v)) (\<lambda>st3.
                and_then (case v_app_thread st3 of
                            None \<Rightarrow> Inr st3
                          | Some th \<Rightarrow> cache_add_line st3 (Some v) th) (\<lambda>st4.
                  Inr (Continue, st4\<lparr> v_prev_data := None \<rparr>)))))
              else Inr (Continue, st1\<lparr> v_prev_data := None \<rparr>))
      | None \<Rightarrow>
          (if v_app st \<noteq> None then
             and_then (app_counter_incr st (v_app st)) (\<lambda>st1. Inr (Continue, st1))
           else Inr (Continue, st)))"

text \<open>
  The year of an event: \<^verbatim>\<open>getattr(log_data, 'year', prev_year if log_data.month != '1'
  and file_month == 1 else file_year)\<close>, with \<^verbatim>\<open>prev_year = file_year - 1\<close>.
\<close>

definition infer_year :: "logfile \<Rightarrow> log_data \<Rightarrow> int option" where
  "infer_year file d =
     (case year d of
        Some y \<Rightarrow> y
      | None \<Rightarrow> Some (if month d \<noteq> ''1'' \<and> file_month file = 1 then file_year file - 1
                       else file_year file))"

text \<open>
  \<^verbatim>\<open>get_mktime\<close>: \<^verbatim>\<open>int(year)\<close> raises \<^verbatim>\<open>TypeError\<close> on \<^verbatim>\<open>None\<close>, and then
  \<^verbatim>\<open>MONTHMAP[month]\<close> raises \<^verbatim>\<open>KeyError\<close> for a month that is not admitted.
\<close>

definition get_mktime ::
  "engine \<Rightarrow> int option \<Rightarrow> string \<Rightarrow> string \<Rightarrow> string \<Rightarrow> error + int" where
  "get_mktime env y mon dy lt =
     (case y of
        None \<Rightarrow> Inl TypeError
      | Some yr \<Rightarrow>
          (case map_of MONTHMAP mon of
             None \<Rightarrow> Inl KeyError
           | Some mm \<Rightarrow> Inr (mktime (e_ext env) yr mm dy lt)))"

text \<open>The event time and the checks against the selected scope.\<close>

definition check_time :: "engine \<Rightarrow> logfile \<Rightarrow> log_data \<Rightarrow> state \<Rightarrow> error + flow \<times> state" where
  "check_time env file d st =
     and_then (get_mktime env (infer_year file d) (month d) (day d) (ltime d)) (\<lambda>t.
       let st1 = st\<lparr> v_event_time := Some t \<rparr> in
       if t < e_initial_dt env then Inr (Continue, st1\<lparr> v_prev_data := None \<rparr>)
       else if t > e_final_dt env then Inr (Break, st1)
       else if (case e_timerange env of None \<Rightarrow> False | Some between \<Rightarrow> \<not> between (ltime d))
         then Inr (Continue, st1\<lparr> v_prev_data := None \<rparr>)
       else Inr (Proceed d, st1))"

text \<open>The check of the host name against the host patterns, with the set of known hosts.\<close>

definition check_host :: "engine \<Rightarrow> log_data \<Rightarrow> state \<Rightarrow> error + flow \<times> state" where
  "check_host env d st =
     (if e_hosts env \<noteq> [] then
        (case host d of
           None \<Rightarrow> Inr (Proceed d, st)
         | Some hostname \<Rightarrow>
             if hostname \<noteq> [] \<and> hostname \<notin> set (hostset st) then
               (if \<exists>host_pattern \<in> set (e_hosts env). host_pattern hostname
                then Inr (Proceed d, st\<lparr> hostset := hostname # hostset st \<rparr>)
                else Inr (Continue, st\<lparr> v_prev_data := None \<rparr>))
             else Inr (Proceed d, st))
      else Inr (Proceed d, st))"

text \<open>
  The loop over the content patterns: whether it ended with \<^verbatim>\<open>break\<close>, and the last value
  of \<^verbatim>\<open>pattern_match\<close>.
\<close>

fun pattern_loop ::
  "(string \<Rightarrow> pmatch option) list \<Rightarrow> bool \<Rightarrow> string \<Rightarrow> pmatch option \<Rightarrow> bool \<times> pmatch option" where
  "pattern_loop [] inverted line pm = (False, pm)"
| "pattern_loop (pattern # rest) inverted line pm =
     (let pattern_match = pattern line
      in if (pattern_match \<noteq> None \<and> \<not> inverted) \<or> (pattern_match = None \<and> inverted)
         then (True, pattern_match)
         else pattern_loop rest inverted line pattern_match)"

definition check_patterns :: "engine \<Rightarrow> log_data \<Rightarrow> state \<Rightarrow> error + flow \<times> state" where
  "check_patterns env d st =
     (if e_patterns env \<noteq> [] then
        (let (broke, pm) = pattern_loop (e_patterns env) (e_invert env) (v_line st)
                             (v_pattern_match st);
             st1 = st\<lparr> v_pattern_match := pm \<rparr>
         in if broke then Inr (Proceed d, st1)
            else if \<not> e_thread env then Inr (Continue, st1\<lparr> v_prev_data := None \<rparr>)
            else Inr (Proceed d, st1))
      else if e_invert env then
        (let st1 = st\<lparr> v_pattern_match := None \<rparr>
         in if \<not> e_thread env then Inr (Continue, st1\<lparr> v_prev_data := None \<rparr>)
            else Inr (Proceed d, st1))
      else Inr (Proceed d, st\<lparr> v_pattern_match := None \<rparr>))"

text \<open>
  The applications of a tag: \<^verbatim>\<open>tagmap[apptag]\<close> or, when that raises, the list
  comprehension over the tags that are a prefix of \<^verbatim>\<open>apptag\<close>, which iterates over their
  values.
\<close>

definition tag_apps_lookup :: "(string \<times> pyval) list \<Rightarrow> string \<Rightarrow> error + pyval" where
  "tag_apps_lookup tm t =
     (case map_of tm t of
        Some v \<Rightarrow> Inr v
      | None \<Rightarrow>
          (let hits = filter (\<lambda>(tag, v). startswith t tag) tm
           in if \<exists>(tag, v) \<in> set hits. (case v of PyApp a \<Rightarrow> True | PyList as \<Rightarrow> False)
              then Inl TypeError
              else Inr (PyList (concat (map (\<lambda>(tag, v). case v of PyList as \<Rightarrow> as | PyApp a \<Rightarrow> [])
                                         hits)))))"

text \<open>
  The loop \<^verbatim>\<open>for app in tag_apps\<close> that runs the rule engine of each candidate until one
  matches; the flag says whether it ended with \<^verbatim>\<open>break\<close>.
\<close>

fun try_apps :: "state \<Rightarrow> log_data \<Rightarrow> nat list \<Rightarrow> error + bool \<times> state" where
  "try_apps st d [] = Inr (False, st)"
| "try_apps st d (a # rest) =
     and_then (process (apps st a) d) (\<lambda>((rule_match, fm, th, mapd), app').
       let st1 = st\<lparr> v_app := Some (PyApp a), apps := (apps st)(a := app'),
                     v_full_match := fm, v_app_thread := th \<rparr>
       in if rule_match then Inr (True, st1) else try_apps st1 d rest)"

text \<open>
  The choice among the applications of the tag: none (the tag is recorded and the line
  skipped), one (or the first, when the rules are not used), or the first whose rules
  match the line.
\<close>

definition choose_app :: "engine \<Rightarrow> log_data \<Rightarrow> state \<Rightarrow> string \<Rightarrow> pyval \<Rightarrow> error + flow \<times> state" where
  "choose_app env d st t tag_apps =
     (case tag_apps of
        PyApp a \<Rightarrow> Inl TypeError
      | PyList as \<Rightarrow>
          (case as of
             [] \<Rightarrow>
               Inr (Continue, st\<lparr> v_extra_tags := List.insert t (v_extra_tags st),
                                   v_prev_data := None \<rparr>)
           | a # rest \<Rightarrow>
               if rest = [] \<or> \<not> e_use_rules env
               then Inr (Proceed d, st\<lparr> v_app := Some (PyApp a) \<rparr>)
               else
                 and_then (try_apps st d (a # rest)) (\<lambda>(broke, st1).
                   if broke then Inr (Proceed d, st1)
                   else Inr (Continue, st1\<lparr> v_prev_data := None \<rparr>))))"

text \<open>
  The application of the line: that of the parser, or from the application tag, or the
  one application of the file.
\<close>

definition resolve_app :: "engine \<Rightarrow> pyval option \<Rightarrow> log_data \<Rightarrow> state \<Rightarrow> error + flow \<times> state" where
  "resolve_app env file_app d st =
     (case parser_app (e_ext env) (v_log_parser st) of
        Some v \<Rightarrow> Inr (Proceed d, st\<lparr> v_app := Some v \<rparr>)
      | None \<Rightarrow>
          (let st0 = st\<lparr> v_app := None \<rparr> in
           case apptag d of
             Some t \<Rightarrow>
               and_then (tag_apps_lookup (e_tagmap env) t) (choose_app env d st0 t)
           | None \<Rightarrow>
               (case file_app of
                  Some v \<Rightarrow> Inr (Proceed d, st0\<lparr> v_app := Some v \<rparr>)
                | None \<Rightarrow> Inr (Continue, st0\<lparr> v_prev_data := None \<rparr>))))"

text \<open>The first and the last event time, for the report.\<close>

definition report_times :: "engine \<Rightarrow> state \<Rightarrow> error + state" where
  "report_times env st =
     (if e_make_report env then
        (case v_event_time st of
           None \<Rightarrow> Inl UnboundLocalError
         | Some t \<Rightarrow>
             (case v_first_event st of
                None \<Rightarrow> Inr (st\<lparr> v_first_event := Some t, v_last_event := Some t \<rparr>)
              | Some f \<Rightarrow>
                  Inr (st\<lparr> v_first_event := (if f > t then Some t else Some f),
                            v_last_event :=
                              (case v_last_event st of
                                 Some l \<Rightarrow> (if l < t then Some t else Some l)
                               | None \<Rightarrow> None) \<rparr>)))
      else Inr st)"

text \<open>
  The message and the rules of the application: \<^verbatim>\<open>if use_rules and (pattern_match or
  thread)\<close> with its branches on the outcome of \<^verbatim>\<open>app.process(log_data)\<close>.
\<close>

definition apply_rules :: "engine \<Rightarrow> log_data \<Rightarrow> state \<Rightarrow> error + flow \<times> state" where
  "apply_rules env d st =
     (if e_use_rules env \<and> (v_pattern_match st \<noteq> None \<or> e_thread env) then
        (case v_app st of
           Some (PyApp a) \<Rightarrow>
             and_then (process (apps st a) d) (\<lambda>((rule_match, fm, th, mapd), app').
               let st1 = st\<lparr> apps := (apps st)(a := app'), v_full_match := fm,
                             v_app_thread := th \<rparr>;
                   remap = (\<lambda>f. case mapd of
                                   None \<Rightarrow> st1
                                 | Some md \<Rightarrow> st1\<lparr> v_line := f (e_ext env) (v_log_parser st1)
                                                               (v_line st1) md \<rparr>)
               in if \<not> rule_match then
                    (if \<not> e_match_unparsed env
                     then Inr (Continue, st1\<lparr> v_prev_data := None \<rparr>)
                     else and_then (report_times env (remap map2str)) (\<lambda>st2.
                            Inr (Proceed d, st2)))
                  else if e_match_unparsed env
                    then Inr (Continue, st1\<lparr> v_prev_data := None \<rparr>)
                  else if th \<noteq> None then
                    and_then (cache_add_line (remap map2str_header) (Some (PyApp a)) (the th))
                      (\<lambda>st2. and_then (report_times env st2) (\<lambda>st3. Inr (Proceed d, st3)))
                  else if fm \<noteq> Some True \<and> has_filters app'
                    then Inr (Continue, st1\<lparr> v_prev_data := None \<rparr>)
                  else and_then (report_times env (remap map2str)) (\<lambda>st2.
                         Inr (Proceed d, st2)))
         | _ \<Rightarrow> Inl AttributeError)
      else Inr (Proceed d, st))"

text \<open>
  The iteration up to the counters: the line is counted, parsed, and goes through the
  steps in the order of the source.
\<close>

definition line_filters ::
  "engine \<Rightarrow> logfile \<Rightarrow> pyval option \<Rightarrow> state \<Rightarrow> string \<Rightarrow> error + flow \<times> state" where
  "line_filters env file file_app st line =
     (let st0 = st\<lparr> v_line_counter := v_line_counter st + 1, v_line := line \<rparr> in
      case parse_line env st0 line of
        None \<Rightarrow> Inr (Continue, st0\<lparr> v_unparsed_counter := v_unparsed_counter st0 + 1 \<rparr>)
      | Some (p, d) \<Rightarrow>
          (let st1 = st0\<lparr> v_log_parser := p \<rparr> in
           case repeat d of
             Some n \<Rightarrow> repeat_line env st1 n
           | None \<Rightarrow>
               proceed_then (check_time env file d (st1\<lparr> v_prev_data := Some d \<rparr>)) (\<lambda>d st2.
               proceed_then (check_host env d st2) (\<lambda>d st3.
               proceed_then (check_patterns env d st3) (\<lambda>d st4.
               proceed_then (resolve_app env file_app d st4) (\<lambda>d st5.
                 and_then (app_counter_incr st5 (v_app st5)) (\<lambda>st6.
                   apply_rules env d st6)))))))"

subsection \<open>Counters, output and the end of the scan\<close>

text \<open>
  In thread mode, every \<^verbatim>\<open>PURGE_THREADS_LIMIT\<close> lines: purge and flush the cache of each
  application of the file. The loop variable is \<^verbatim>\<open>app\<close>.
\<close>

definition PURGE_THREADS_LIMIT :: int where
  "PURGE_THREADS_LIMIT = 1000"

fun purge_old :: "engine \<Rightarrow> state \<Rightarrow> nat list \<Rightarrow> error + state" where
  "purge_old env st [] = Inr st"
| "purge_old env st (a # rest) =
     (case v_event_time st of
        None \<Rightarrow> Inl UnboundLocalError
      | Some t \<Rightarrow>
          (let c1 = purge_threads (e_ext env) (caches st a) t;
               max_threads = (case e_max_count env of
                                None \<Rightarrow> None
                              | Some m \<Rightarrow> Some (m - v_matching_counter st));
               (n, c2) = flush_old_cache (e_ext env) c1 t (e_send_selected env) max_threads
           in purge_old env
                (st\<lparr> v_app := Some (PyApp a), caches := (caches st)(a := c2),
                      v_matching_counter := v_matching_counter st + n \<rparr>) rest))"

text \<open>
  \<^verbatim>\<open>if thread: ... else: matching_counter += 1\<close> and the event for the dispatcher.
\<close>

definition dispatch :: "engine \<Rightarrow> logfile \<Rightarrow> nat list \<Rightarrow> log_data \<Rightarrow> state \<Rightarrow> error + state" where
  "dispatch env file applist d st =
     (if e_thread env then
        (if v_line_counter st mod PURGE_THREADS_LIMIT = 0 then purge_old env st applist
         else Inr st)
      else
        (let st1 = st\<lparr> v_matching_counter := v_matching_counter st + 1 \<rparr>
         in if e_send_selected env then
              Inr (st1\<lparr> sent := sent st1 @
                     [LineEvent (lf_name file)
                        (if e_line_number env then Some (v_line_counter st1) else None)
                        d (v_line st1) (v_pattern_match st1)] \<rparr>)
            else Inr st1))"

text \<open>\<^verbatim>\<open>max_count and matching_counter >= max_count\<close>: \<^verbatim>\<open>None\<close> and 0 are false.\<close>

definition max_count_reached :: "engine \<Rightarrow> state \<Rightarrow> bool" where
  "max_count_reached env st \<longleftrightarrow>
     (case e_max_count env of
        None \<Rightarrow> False
      | Some m \<Rightarrow> m \<noteq> 0 \<and> v_matching_counter st \<ge> m)"

text \<open>The loop \<^verbatim>\<open>for line in logfile\<close>.\<close>

fun scan ::
  "engine \<Rightarrow> logfile \<Rightarrow> pyval option \<Rightarrow> nat list \<Rightarrow> state \<Rightarrow> string list \<Rightarrow> error + state" where
  "scan env file file_app applist st [] = Inr st"
| "scan env file file_app applist st (line # rest) =
     and_then (line_filters env file file_app st line) (\<lambda>(fl, st1).
       case fl of
         Continue \<Rightarrow> scan env file file_app applist st1 rest
       | Break \<Rightarrow> Inr st1
       | Proceed d \<Rightarrow>
           and_then (dispatch env file applist d st1) (\<lambda>st2.
             if max_count_reached env st2 then Inr st2
             else scan env file file_app applist st2 rest))"

text \<open>
  The output of the threads at the end of the file; \<^verbatim>\<open>UnboundLocalError\<close> (no event time
  yet) ends the loop.
\<close>

fun flush_all :: "engine \<Rightarrow> state \<Rightarrow> nat list \<Rightarrow> state" where
  "flush_all env st [] = st"
| "flush_all env st (a # rest) =
     (let st0 = st\<lparr> v_app := Some (PyApp a) \<rparr> in
      case v_event_time st0 of
        None \<Rightarrow> st0
      | Some t \<Rightarrow>
          (let c1 = purge_threads (e_ext env) (caches st0 a) t;
               st1 = st0\<lparr> caches := (caches st0)(a := c1) \<rparr>
           in if max_count_reached env st1 then st1
              else
                (let max_threads = (case e_max_count env of
                                      None \<Rightarrow> None
                                    | Some m \<Rightarrow> if m = 0 then None
                                                else Some (m - v_matching_counter st1));
                     (n, c2) = flush_cache (e_ext env) c1 t (e_send_selected env) max_threads
                 in flush_all env
                      (st1\<lparr> caches := (caches st1)(a := c2),
                             v_matching_counter := v_matching_counter st1 + n \<rparr>) rest)))"

text \<open>
  \<^verbatim>\<open>process_logfile(filename, applist)\<close>. The local variables are initialised; what the
  closure shares between the files (the known hosts, the applications and their caches,
  the events already sent) comes with the state \<open>st\<close>. The result is the returned tuple
  and the state after the file.
\<close>

definition init_locals :: "engine \<Rightarrow> state \<Rightarrow> state" where
  "init_locals env st =
     st\<lparr> v_first_event := None, v_last_event := None,
         v_log_parser := first_parser (e_ext env),
         v_prev_data := None, v_app := None, v_app_thread := None,
         v_matching_counter := 0, v_unparsed_counter := 0,
         v_full_match := Some False, v_extra_tags := [],
         v_line_counter := 0, v_line := [], v_pattern_match := None,
         v_event_time := None \<rparr>"

text \<open>\<^verbatim>\<open>file_app = applist[0] if len(applist) == 1 else None\<close>.\<close>

definition file_app_of :: "nat list \<Rightarrow> pyval option" where
  "file_app_of applist = (case applist of [a] \<Rightarrow> Some (PyApp a) | _ \<Rightarrow> None)"

definition process_logfile ::
  "engine \<Rightarrow> logfile \<Rightarrow> nat list \<Rightarrow> state
     \<Rightarrow> error + (int \<times> int \<times> int \<times> string list \<times> int option \<times> int option) \<times> state" where
  "process_logfile env file applist st =
     (let file_app = file_app_of applist
      in and_then (scan env file file_app applist (init_locals env st) (lf_lines file)) (\<lambda>st1.
           let st2 = (if e_thread env then flush_all env st1 applist else st1);
               st3 = (if e_count env
                      then st2\<lparr> sent := sent st2 @
                                  [CountEvent (lf_name file) (v_matching_counter st2)] \<rparr>
                      else st2)
           in Inr ((v_line_counter st3, v_matching_counter st3, v_unparsed_counter st3,
                    v_extra_tags st3, v_first_event st3, v_last_event st3), st3)))"

subsection \<open>Observations on a scan\<close>

text \<open>
  A step of an iteration is quiet when it leaves the counter of matches, the events sent
  and the line counter as they are, and forgets the previous event where it ends the
  iteration with \<^verbatim>\<open>continue\<close>.
\<close>

definition quiet_step :: "state \<Rightarrow> flow \<Rightarrow> state \<Rightarrow> bool" where
  "quiet_step st fl st' \<longleftrightarrow>
     v_matching_counter st' = v_matching_counter st \<and> sent st' = sent st
     \<and> v_line_counter st' = v_line_counter st
     \<and> (fl = Continue \<longrightarrow> v_prev_data st' = None)"

text \<open>
  The position in a list of lines (counted from 1) of the first line that reaches the
  counters, when the lines before it end their iteration with \<^verbatim>\<open>continue\<close>; and the
  number of lines that reach the counters when the scan is not cut short by the maximum
  count. Both follow the loop of \<open>scan\<close>. A list of lines has no repeated-message line
  when no parser reads a \<^verbatim>\<open>repeat\<close> value from any of them.
\<close>

fun first_matching_line ::
  "engine \<Rightarrow> logfile \<Rightarrow> pyval option \<Rightarrow> state \<Rightarrow> string list \<Rightarrow> nat option" where
  "first_matching_line env file file_app st [] = None"
| "first_matching_line env file file_app st (line # rest) =
     (case line_filters env file file_app st line of
        Inl e \<Rightarrow> None
      | Inr (fl, st1) \<Rightarrow>
          (case fl of
             Continue \<Rightarrow> map_option Suc (first_matching_line env file file_app st1 rest)
           | Break \<Rightarrow> None
           | Proceed d \<Rightarrow> Some 1))"

fun matching_lines ::
  "engine \<Rightarrow> logfile \<Rightarrow> pyval option \<Rightarrow> nat list \<Rightarrow> state \<Rightarrow> string list \<Rightarrow> nat" where
  "matching_lines env file file_app applist st [] = 0"
| "matching_lines env file file_app applist st (line # rest) =
     (case line_filters env file file_app st line of
        Inl e \<Rightarrow> 0
      | Inr (fl, st1) \<Rightarrow>
          (case fl of
             Continue \<Rightarrow> matching_lines env file file_app applist st1 rest
           | Break \<Rightarrow> 0
           | Proceed d \<Rightarrow>
               (case dispatch env file applist d st1 of
                  Inl e \<Rightarrow> 0
                | Inr st2 \<Rightarrow> Suc (matching_lines env file file_app applist st2 rest))))"

definition no_repeat_lines :: "engine \<Rightarrow> string list \<Rightarrow> bool" where
  "no_repeat_lines env ls \<longleftrightarrow>
     (\<forall>line \<in> set ls. \<forall>p. (case parser_match (e_ext env) p line of
                               Some d \<Rightarrow> repeat d = None
                             | None \<Rightarrow> (case parser_detect (e_ext env) p line of
                                          Some (q, d) \<Rightarrow> repeat d = None
                                        | None \<Rightarrow> True)))"

definition is_line_event :: "event \<Rightarrow> bool" where
  "is_line_event ev = (case ev of LineEvent f n d l pm \<Rightarrow> True | CountEvent f c \<Rightarrow> False)"

section \<open>Example inputs\<close>

text \<open>
  Concrete rules, applications and events, used to run the definitions. The two compiled
  patterns stand for \<^verbatim>\<open>login( user=(?P<user>alice))?\<close>, whose group \<open>user\<close> takes no
  part in a match of the message \<open>login\<close>, and for
  \<^verbatim>\<open>(?P<thread>t[0-9]): (user=(?P<user>alice)|done)\<close>; a third, \<^verbatim>\<open>login\<close>, has no
  group.
\<close>

definition ex_user_regex :: regex where
  "ex_user_regex =
     \<lparr> groupindex = [''user''],
       search = (\<lambda>msg. if msg = ''login user=alice''
                          then Some (\<lambda>g. if g = ''user'' then Some ''alice'' else None)
                        else if msg = ''login'' then Some (\<lambda>g. None)
                        else None) \<rparr>"

definition ex_thread_regex :: regex where
  "ex_thread_regex =
     \<lparr> groupindex = [''thread'', ''user''],
       search = (\<lambda>msg. if msg = ''t1: user=alice''
                          then Some (\<lambda>g. if g = ''thread'' then Some ''t1''
                                          else if g = ''user'' then Some ''alice'' else None)
                        else if msg = ''t1: done''
                          then Some (\<lambda>g. if g = ''thread'' then Some ''t1'' else None)
                        else None) \<rparr>"

definition ex_seen_regex :: regex where
  "ex_seen_regex =
     \<lparr> groupindex = [],
       search = (\<lambda>msg. if msg = ''login user=alice'' \<or> msg = ''login''
                        then Some (\<lambda>g. None) else None) \<rparr>"

definition ex_compile :: "string \<Rightarrow> regex option" where
  "ex_compile pattern =
     (if pattern = ''login( user=(?P<user>alice))?'' then Some ex_user_regex
      else if pattern = ''login'' then Some ex_seen_regex
      else if pattern = ''(?P<thread>t[0-9]): (user=(?P<user>alice)|done)'' then Some ex_thread_regex
      else None)"

text \<open>
  \<^verbatim>\<open>exact_sub\<close> at the one pattern that has the filter field \<^verbatim>\<open>${user}\<close>: the field is
  replaced by a group with the filter's pattern, and its name is returned.
\<close>

definition ex_exact_sub :: "string \<Rightarrow> filter_group \<Rightarrow> string \<times> string list" where
  "ex_exact_sub pattern fg =
     (if pattern = ''login( user=${user})?'' \<and> map fst fg = [''user'']
        then (''login( user=(?P<user>'' @ snd (hd fg) @ ''))?'', [''user''])
      else (pattern, []))"

definition ex_args :: Args where
  "ex_args = \<lparr> filters = [[(''user'', ''alice'')]], thread = True, unparsed = False,
       quiet = False, count = False, max_count = None, line_number = False,
       use_rules = True, invert = False, report = False, timerange = None \<rparr>"

definition ex_rule_options :: "(string \<times> string) list" where
  "ex_rule_options =
     [(''login'', ''login( user=${user})?''),
      (''session'', ''(?P<thread>t[0-9]): (user=(?P<user>alice)|done)'')]"

definition ex_seen_rule_options :: "(string \<times> string) list" where
  "ex_seen_rule_options =
     [(''login'', ''login( user=${user})?''), (''seen'', ''login'')]"

definition ex_login_rule :: AppRule where
  "ex_login_rule =
     \<lparr> name = ''login'', regexp = ex_user_regex, filter_keys = [''user''], full_match = True,
       used_by_report = False, results = [], key_gids = [''host'', ''user''], last_idx = None \<rparr>"

definition ex_session_rule :: AppRule where
  "ex_session_rule =
     \<lparr> name = ''session'', regexp = ex_thread_regex, filter_keys = [''user''],
       full_match = True, used_by_report = False, results = [],
       key_gids = [''host'', ''thread'', ''user''], last_idx = None \<rparr>"

definition ex_app :: "AppRule list \<Rightarrow> bool \<Rightarrow> AppLogParser" where
  "ex_app rs thr =
     \<lparr> app_name = ''app'', rules = rs, has_filters = True, counter = 0, unparsed_counter = 0,
       p_last_rule = None, p_thread = thr, p_report = False, name_cache = None \<rparr>"

definition ex_event :: "string \<Rightarrow> log_data" where
  "ex_event msg =
     \<lparr> host = Some ''host1'', apptag = Some ''app'', month = ''Jan'', day = ''1'',
       ltime = ''10:00:00'', year = None, message = msg, repeat = None \<rparr>"

text \<open>What a rule's pattern captures for a group in a message, and summaries for display.\<close>

definition captured :: "AppRule \<Rightarrow> string \<Rightarrow> string \<Rightarrow> string option option" where
  "captured rule msg g = map_option (\<lambda>m. m g) (search (regexp rule) msg)"

definition rule_summary :: "AppLogParser \<Rightarrow> (string \<times> string list \<times> bool) list" where
  "rule_summary app = map (\<lambda>r. (name r, filter_keys r, full_match r)) (rules app)"

definition init_summary ::
  "error + AppLogParser \<Rightarrow> error + bool \<times> (string \<times> string list \<times> bool) list" where
  "init_summary res =
     (case res of Inl e \<Rightarrow> Inl e | Inr app \<Rightarrow> Inr (has_filters app, rule_summary app))"

definition ex_plain_session_rule :: AppRule where
  "ex_plain_session_rule = ex_session_rule\<lparr> filter_keys := [], full_match := False \<rparr>"


definition ex_top_rule :: "(result_key \<times> int) list \<Rightarrow> AppRule" where
  "ex_top_rule rs =
     \<lparr> name = ''login'', regexp = ex_user_regex, filter_keys = [], full_match = True,
       used_by_report = False, results = rs, key_gids = [''host'', ''user''], last_idx = None \<rparr>"

text \<open>
  A matcher engine for the examples: one parser, which reads the lines of the host
  \<open>host1\<close> and application tag \<open>app\<close> and the line of a repeated message; a content
  pattern that matches every line; and the tag map that gives the tag \<open>app\<close> the list
  of the one application 0.
\<close>

definition ex_line :: "string \<Rightarrow> string" where
  "ex_line msg = ''Jan 1 10:00:00 host1 app: '' @ msg"

definition ex_repeat_line :: string where
  "ex_repeat_line = ''Jan 1 10:00:05 host1 last message repeated 5 times''"

definition ex_parse :: "string \<Rightarrow> log_data option" where
  "ex_parse line =
     (if startswith line ''Jan 1 10:00:00 host1 app: '' then Some (ex_event (drop 26 line))
      else if line = ex_repeat_line
        then Some ((ex_event [])\<lparr> apptag := None, ltime := ''10:00:05'', repeat := Some 5 \<rparr>)
      else None)"

definition ex_ext :: collaborators where
  "ex_ext =
     \<lparr> parser_match = (\<lambda>p. ex_parse),
       parser_detect = (\<lambda>p line. None),
       parser_app = (\<lambda>p. None),
       first_parser = 0,
       map2str = (\<lambda>p line md. line),
       map2str_header = (\<lambda>p line md. line),
       mktime = (\<lambda>y mm dd lt. (y - 1970) * 31536000),
       purge_threads = (\<lambda>c t. c),
       flush_old_cache = (\<lambda>c t s m. (0, c)),
       flush_cache = (\<lambda>c t s m. (0, c)) \<rparr>"

definition ex_cli :: "bool \<Rightarrow> bool \<Rightarrow> int option \<Rightarrow> bool \<Rightarrow> Args" where
  "ex_cli q c m ur = \<lparr> filters = [], thread = False, unparsed = False,
       quiet = q, count = c, max_count = m, line_number = True,
       use_rules = ur, invert = False, report = False, timerange = None \<rparr>"

definition ex_obj :: "Args \<Rightarrow> (string \<times> pyval) list \<Rightarrow> Lograptor" where
  "ex_obj a tm = \<lparr> args = a, tagmap = tm, hosts = [],
       patterns = [\<lambda>line. Some line], initial_dt = None, final_dt = None \<rparr>"

definition ex_nofilter_app :: AppLogParser where
  "ex_nofilter_app = (ex_app [ex_top_rule []] False)\<lparr> has_filters := False \<rparr>"

definition ex_state :: state where
  "ex_state =
     \<lparr> v_first_event = None, v_last_event = None, v_log_parser = 0, v_prev_data = None,
       v_app = None, v_app_thread = None, v_matching_counter = 0, v_unparsed_counter = 0,
       v_full_match = None, v_extra_tags = [], v_line_counter = 0, v_line = [],
       v_pattern_match = None, v_event_time = None, hostset = [],
       apps = (\<lambda>a. ex_nofilter_app), caches = (\<lambda>a. []), sent = [] \<rparr>"

definition ex_file :: "string list \<Rightarrow> logfile" where
  "ex_file ls = \<lparr> lf_name = ''messages'', lf_lines = ls, st_mtime = 1483264800,
                   file_year = 2017, file_month = 1 \<rparr>"


text \<open>
  What is observed of a run: the returned tuple (line counter, matching counter,
  unparsed counter, unknown tags, first and last event time), the number of line events
  and of all events sent, and the results of the rules and the line counter of the
  application 0.
\<close>

definition run_summary ::
  "error + (int \<times> int \<times> int \<times> string list \<times> int option \<times> int option) \<times> state
     \<Rightarrow> error + (int \<times> int \<times> int \<times> string list \<times> int option \<times> int option)
          \<times> nat \<times> nat \<times> (result_key \<times> int) list list \<times> int" where
  "run_summary res =
     (case res of
        Inl e \<Rightarrow> Inl e
      | Inr (tup, st) \<Rightarrow>
          Inr (tup, length (filter is_line_event (sent st)), length (sent st),
               map results (rules (apps st 0)), counter (apps st 0)))"

section \<open>Properties\<close>

lemma and_then_Inl [simp]: "and_then (Inl e) f = Inl e"
  by (simp add: and_then_def)

lemma and_then_Inr [simp]: "and_then (Inr x) f = f x"
  by (simp add: and_then_def)

lemma and_then_eq_Inr:
  "and_then m f = Inr y \<longleftrightarrow> (\<exists>x. m = Inr x \<and> f x = Inr y)"
  by (cases m) simp_all

lemmas ex_rule_defs =
  ex_user_regex_def ex_thread_regex_def ex_seen_regex_def ex_seen_rule_options_def ex_compile_def ex_exact_sub_def ex_args_def
  ex_rule_options_def ex_login_rule_def ex_session_rule_def ex_app_def ex_event_def
  ex_top_rule_def ex_plain_session_rule_def

subsection \<open>Key groups of a constructed rule\<close>

lemma collect_key_gids_foldl:
  "foldl (\<lambda>key_gids gid. if gid \<noteq> ''host'' then key_gids @ [gid] else key_gids) acc gs
     = acc @ filter (\<lambda>g. g \<noteq> ''host'') gs"
  by (induction gs arbitrary: acc) auto

lemma collect_key_gids_eq:
  "collect_key_gids re = ''host'' # filter (\<lambda>g. g \<noteq> ''host'') (groupindex re)"
  by (simp add: collect_key_gids_def collect_key_gids_foldl)

lemma AppRule_init_fields:
  assumes "AppRule_init compile nm pattern fkeys = Inr r"
  shows "\<exists>re. compile pattern = Some re \<and> regexp r = re
            \<and> key_gids r = collect_key_gids re
            \<and> filter_keys r = (case fkeys of None \<Rightarrow> [] | Some ks \<Rightarrow> ks)
            \<and> full_match r = (fkeys \<noteq> None)
            \<and> results r = [] \<and> last_idx r = None"
  using assms
  by (auto simp: AppRule_init_def check_key_gids_def collect_key_gids_eq
           split: if_splits option.splits sum.splits)

text \<open>
  Claim C8. Every successfully constructed rule has a non-empty list of key groups that
  begins with \<open>host\<close>; the rest are the other named groups of the pattern in the order of
  \<^verbatim>\<open>groupindex\<close>; the list has no duplicates (the keys of \<^verbatim>\<open>groupindex\<close>, a dictionary,
  are distinct); and the constructor's check turns an empty list of key groups into the
  configuration error.
\<close>

theorem key_gids_host_first:
  assumes "AppRule_init compile nm pattern fkeys = Inr r"
  shows "key_gids r \<noteq> []
       \<and> hd (key_gids r) = ''host''
       \<and> (\<exists>re. compile pattern = Some re
             \<and> tl (key_gids r) = filter (\<lambda>g. g \<noteq> ''host'') (groupindex re)
             \<and> (distinct (groupindex re) \<longrightarrow> distinct (key_gids r)))
       \<and> check_key_gids [] = Inl (LogRaptorConfigError ''rule gids set empty!'')"
proof -
  from AppRule_init_fields [OF assms] obtain re where
    re: "compile pattern = Some re" and kg: "key_gids r = collect_key_gids re"
    by blast
  have shape: "key_gids r = ''host'' # filter (\<lambda>g. g \<noteq> ''host'') (groupindex re)"
    by (simp add: kg collect_key_gids_eq)
  have "distinct (groupindex re) \<longrightarrow> distinct (key_gids r)"
    by (simp add: shape)
  with re shape show ?thesis
    by (simp add: check_key_gids_def)
qed

theorem key_gids_host_first_witness:
  "AppRule_init ex_compile ''login'' ''login( user=(?P<user>alice))?'' (Some [''user''])
     = Inr ex_login_rule
   \<and> key_gids ex_login_rule \<noteq> []
   \<and> hd (key_gids ex_login_rule) = ''host''
   \<and> tl (key_gids ex_login_rule) = [''user'']
   \<and> distinct (key_gids ex_login_rule)"
proof -
  have h: "AppRule_init ex_compile ''login'' ''login( user=(?P<user>alice))?'' (Some [''user''])
             = Inr ex_login_rule"
    by (simp add: AppRule_init_def check_key_gids_def collect_key_gids_def ex_rule_defs)
  from key_gids_host_first [OF h] h show ?thesis
    by (simp add: ex_rule_defs)
qed

subsection \<open>The rule engine: the first rule that matches decides\<close>

lemma process_rules_skip:
  "\<forall>r \<in> set pre. search (regexp r) (message ld) = None \<Longrightarrow>
   process_rules app ld n (pre @ rest) = process_rules app ld (n + length pre) rest"
  by (induction pre arbitrary: n) simp_all

lemma process_first_match:
  assumes "rules app = pre @ rule # post"
    and "\<forall>r \<in> set pre. search (regexp r) (message ld) = None"
    and "search (regexp rule) (message ld) = Some m"
  shows "process app ld = rule_matched app ld (length pre) rule m"
  using assms by (simp add: process_def process_rules_skip)

lemma process_no_match:
  assumes "\<forall>r \<in> set (rules app). search (regexp r) (message ld) = None"
  shows "process app ld = Inr ((False, None, None, None),
          app\<lparr> p_last_rule := None,
               unparsed_counter :=
                 (if \<not> has_filters app then unparsed_counter app + 1 else unparsed_counter app) \<rparr>)"
  using process_rules_skip [OF assms, of app 0 "[]"] by (simp add: process_def)

lemma extract_values_foldl:
  "foldl (\<lambda>vals gid. vals(gid \<mapsto> m gid)) v0 gids k =
     (if k \<in> set gids then Some (m k) else v0 k)"
  by (induction gids arbitrary: v0) auto

lemma extract_values_host: "fst (extract_values nc rule m ld) ''host'' \<noteq> None"
  by (cases nc) (simp_all add: extract_values_def Let_def extract_values_foldl)


lemma any_filter_key_null_total:
  "\<forall>k \<in> set keys. vals k \<noteq> None \<Longrightarrow>
   any_filter_key_null vals keys = Inr (\<exists>k \<in> set keys. vals k = Some None)"
  by (auto simp: any_filter_key_null_def)

lemma those_map_total:
  "\<forall>k \<in> set ks. f k \<noteq> None \<Longrightarrow> those (map f ks) = Some (map (\<lambda>k. the (f k)) ks)"
  by (induction ks) auto

lemma add_result_total:
  assumes "vals ''host'' \<noteq> None" and "\<forall>k \<in> set (key_gids rule). vals k \<noteq> None"
  shows "\<exists>rule'. add_result rule vals = Inr rule' \<and> full_match rule' = full_match rule"
proof -
  have "\<forall>k \<in> set (''host'' # tl (key_gids rule)). vals k \<noteq> None"
    using assms by (cases "key_gids rule") auto
  from those_map_total [OF this] show ?thesis
    by (simp add: add_result_def)
qed

lemma rule_matched_rejected:
  assumes "\<forall>k \<in> set (filter_keys rule). fst (extract_values (name_cache app) rule m ld) k \<noteq> None"
    and "\<exists>k \<in> set (filter_keys rule). fst (extract_values (name_cache app) rule m ld) k = Some None"
  shows "rule_matched app ld i rule m
           = Inr ((False, None, None, None), app\<lparr> p_last_rule := Some i \<rparr>)"
  using assms
  by (simp add: rule_matched_def Let_def split_beta any_filter_key_null_total)

lemma rule_matched_accepted:
  assumes "\<forall>k \<in> set (filter_keys rule). fst (extract_values (name_cache app) rule m ld) k \<noteq> None"
    and "\<forall>k \<in> set (filter_keys rule). fst (extract_values (name_cache app) rule m ld) k \<noteq> Some None"
    and "\<forall>k \<in> set (key_gids rule). fst (extract_values (name_cache app) rule m ld) k \<noteq> None"
  shows "\<exists>app'. rule_matched app ld i rule m =
           Inr ((True, Some (full_match rule),
                 (if p_thread app \<and> ''thread'' \<in> set (groupindex (regexp rule))
                  then m ''thread'' else None),
                 snd (extract_values (name_cache app) rule m ld)), app')"
proof -
  from add_result_total [OF extract_values_host assms(3)]
  obtain rule' where "add_result rule (fst (extract_values (name_cache app) rule m ld)) = Inr rule'"
    and "full_match rule' = full_match rule" by blast
  with assms(1,2) show ?thesis
    by (simp add: rule_matched_def Let_def split_beta any_filter_key_null_total)
qed

lemmas process_eval_defs =
  process_def rule_matched_def extract_values_def any_filter_key_null_def add_result_def
  captured_def




subsection \<open>Increasing the last result when there is none\<close>

text \<open>
  Claim C10. \<^verbatim>\<open>AppLogParser.increase_last(k)\<close> returns the application unchanged, and
  raises nothing, when there is no last matched rule or when the last matched rule has no
  last result key. A line on which no rule matches leaves the application without a last
  matched rule (and with its rules as they were), so the call is such a no-op after it.
\<close>

theorem increase_last_noop:
  "((p_last_rule app = None
       \<or> (\<exists>i. p_last_rule app = Some i \<and> last_idx (rules app ! i) = None))
      \<longrightarrow> app_increase_last app k = Inr app)
   \<and> ((\<forall>r \<in> set (rules app). search (regexp r) (message ld) = None) \<longrightarrow>
        (\<exists>app'. process app ld = Inr ((False, None, None, None), app')
               \<and> p_last_rule app' = None \<and> rules app' = rules app
               \<and> app_increase_last app' k = Inr app'))"
  by (auto simp: app_increase_last_def increase_last_def process_no_match)

theorem increase_last_noop_witness:
  "app_increase_last (ex_app [ex_login_rule] False) 5 = Inr (ex_app [ex_login_rule] False)
   \<and> app_increase_last ((ex_app [ex_login_rule] False)\<lparr> p_last_rule := Some 0 \<rparr>) 5
       = Inr ((ex_app [ex_login_rule] False)\<lparr> p_last_rule := Some 0 \<rparr>)
   \<and> (\<exists>app'. process (ex_app [ex_login_rule] False) (ex_event ''logout'')
                = Inr ((False, None, None, None), app')
            \<and> p_last_rule app' = None
            \<and> rules app' = rules (ex_app [ex_login_rule] False)
            \<and> app_increase_last app' 5 = Inr app')"
proof -
  let ?app = "ex_app [ex_login_rule] False"
  have a: "p_last_rule ?app = None
       \<or> (\<exists>i. p_last_rule ?app = Some i \<and> last_idx (rules ?app ! i) = None)"
    by (simp add: ex_rule_defs)
  have b: "p_last_rule (?app\<lparr> p_last_rule := Some 0 \<rparr>) = None
       \<or> (\<exists>i. p_last_rule (?app\<lparr> p_last_rule := Some 0 \<rparr>) = Some i
              \<and> last_idx (rules (?app\<lparr> p_last_rule := Some 0 \<rparr>) ! i) = None)"
    by (simp add: ex_rule_defs)
  have c: "\<forall>r \<in> set (rules ?app). search (regexp r) (message (ex_event ''logout'')) = None"
    by (simp add: ex_rule_defs)
  from a b c increase_last_noop [of ?app 5 "ex_event ''logout''"]
    increase_last_noop [of "?app\<lparr> p_last_rule := Some 0 \<rparr>" 5 "ex_event ''logout''"]
  show ?thesis by blast
qed

subsection \<open>The ranking of \<^verbatim>\<open>top_events\<close>\<close>

lemma not_none_length: "length (not_none tops) \<le> length tops"
  by (simp add: not_none_def)

lemma max_loop_length: "max_loop i ks tops = Inr tops' \<Longrightarrow> length tops' = length tops"
  by (induction i ks tops rule: max_loop.induct) (auto split: if_splits)

lemma classify_no_slots: "nat num = 0 \<Longrightarrow> classify num tot v tops = Inr tops"
  by (simp add: classify_def split: option.splits)

lemma top_loop_no_slots:
  "nat num = 0 \<Longrightarrow> top_loop pyint num pos val items v tot tops = Inr tops' \<Longrightarrow> tops' = tops"
proof (induction items arbitrary: v tot)
  case Nil
  then show ?case by (simp add: classify_no_slots)
next
  case (Cons item items)
  obtain key c where item: "item = (key, c)" by (cases item)
  from Cons.prems obtain kv w where
    "top_loop pyint num pos val items kv w tops = Inr tops'"
    by (auto simp: item classify_no_slots and_then_eq_Inr split: if_splits)
  from Cons.IH [OF Cons.prems(1) this] show ?case .
qed

lemma py_take_length: "0 \<le> num \<Longrightarrow> length (py_take num xs) \<le> nat num"
  by (simp add: py_take_def)

lemma top_events_length:
  assumes "top_events pyint rule num valfld usemax gid = Inr res"
  shows "length res \<le> nat num"
proof (cases "results rule = []")
  case True
  with assms show ?thesis by (simp add: top_events_def)
next
  case False
  show ?thesis
  proof (cases "valfld \<noteq> None \<and> usemax")
    case True
    with assms False obtain ks tops' where
      "max_loop 0 ks (replicate (nat num) None) = Inr tops'" and "res = not_none tops'"
      by (auto simp: top_events_def Let_def and_then_eq_Inr split: option.splits if_splits)
    with max_loop_length [of 0 ks "replicate (nat num) None" tops'] not_none_length [of tops']
    show ?thesis by simp
  next
    case nomax: False
    with assms False obtain pos val items tops' where
      loop: "top_loop pyint num pos val items None 0 (replicate (nat num) None) = Inr tops'"
      and res: "res = not_none (py_take num tops')"
      by (auto simp: top_events_def Let_def and_then_eq_Inr split: option.splits if_splits)
    show ?thesis
    proof (cases "0 \<le> num")
      case True
      from py_take_length [OF True, of tops'] not_none_length [of "py_take num tops'"] res
      show ?thesis by simp
    next
      case False
      then have z: "nat num = 0" by simp
      from top_loop_no_slots [OF z loop] z have "tops' = []" by simp
      with res show ?thesis by (simp add: not_none_def py_take_def)
    qed
  qed
qed

text \<open>
  The loop of \<^verbatim>\<open>top_events\<close> against the ranking of the specification. The list
  \<^verbatim>\<open>top\<close> is at every moment a list of slots followed by \<^verbatim>\<open>None\<close>s; \<^verbatim>\<open>classify\<close>
  looks at its first \<open>n\<close> positions only, so it agrees with \<open>rank_insert\<close> on the first
  \<open>n\<close> slots, which are all that \<^verbatim>\<open>del top[num:]\<close> keeps.
\<close>

lemma take_Cons_take: "take n (x # take n r) = take n (x # r)"
  by (cases n) (simp_all add: min_def)

lemma take_rank_insert:
  "take n (rank_insert t v (take n r)) = take n (rank_insert t v r)"
proof (induction r arbitrary: n)
  case Nil
  then show ?case by simp
next
  case (Cons slot r)
  obtain t' vs where slot: "slot = (t', vs)" by (cases slot)
  show ?case
  proof (cases n)
    case 0
    then show ?thesis by simp
  next
    case (Suc n')
    with Cons.IH [of n'] slot show ?thesis by (simp add: take_Cons_take)
  qed
qed

lemma rank_insert_totals:
  "x \<in> set (rank_insert t v r) \<Longrightarrow> fst x = t \<or> (\<exists>y \<in> set r. fst y = fst x)"
proof (induction r)
  case Nil
  then show ?case by simp
next
  case (Cons slot r)
  obtain t' vs where slot: "slot = (t', vs)" by (cases slot)
  show ?case
  proof (cases "t = t'")
    case True
    with Cons.prems slot show ?thesis by auto
  next
    case neq: False
    show ?thesis
    proof (cases "t' < t")
      case True
      with Cons.prems slot neq show ?thesis by auto
    next
      case False
      with Cons.prems slot neq have "x = (t', vs) \<or> x \<in> set (rank_insert t v r)" by simp
      then show ?thesis
      proof
        assume "x = (t', vs)"
        with slot show ?thesis by simp
      next
        assume "x \<in> set (rank_insert t v r)"
        from Cons.IH [OF this] show ?thesis by auto
      qed
    qed
  qed
qed

lemma rank_insert_descending:
  "sorted_wrt (>) (map fst r) \<Longrightarrow> sorted_wrt (>) (map fst (rank_insert t v r))"
proof (induction r)
  case Nil
  then show ?case by simp
next
  case (Cons slot r)
  obtain t' vs where slot: "slot = (t', vs)" by (cases slot)
  from Cons.prems slot have above: "\<forall>x \<in> set r. fst x < t'" and rest: "sorted_wrt (>) (map fst r)"
    by auto
  show ?case
  proof (cases "t = t' \<or> t' < t")
    case True
    with Cons.prems slot above show ?thesis by auto
  next
    case False
    then have lt: "t < t'" by simp
    have "\<forall>x \<in> set (rank_insert t v r). fst x < t'"
    proof
      fix x assume "x \<in> set (rank_insert t v r)"
      from rank_insert_totals [OF this] lt above show "fst x < t'" by auto
    qed
    with False slot Cons.IH [OF rest] show ?thesis by auto
  qed
qed

lemma ranking_descending:
  "sorted_wrt (>) (map fst r) \<Longrightarrow> sorted_wrt (>) (map fst (ranking r gs))"
proof (induction gs arbitrary: r)
  case Nil
  then show ?case by (simp add: ranking_def)
next
  case (Cons x gs)
  obtain g t where x: "x = (g, t)" by (cases x)
  from Cons.IH [OF rank_insert_descending [OF Cons.prems, of t g]] x show ?case
    by (simp add: ranking_def)
qed

lemma ranking_Cons: "ranking r ((g, t) # gs) = ranking (rank_insert t g r) gs"
  by (simp add: ranking_def)

lemma take_ranking_cong:
  "take n r = take n r' \<Longrightarrow> take n (ranking r gs) = take n (ranking r' gs)"
proof (induction gs arbitrary: r r')
  case Nil
  then show ?case by (simp add: ranking_def)
next
  case (Cons x gs)
  obtain g t where x: "x = (g, t)" by (cases x)
  have "take n (rank_insert t g r) = take n (rank_insert t g r')"
    using take_rank_insert [of n t g r] take_rank_insert [of n t g r'] Cons.prems by simp
  from Cons.IH [OF this] x show ?case by (simp add: ranking_def)
qed

lemma classify_range_rank_insert:
  assumes "n \<le> length P + length R + k"
  shows "\<exists>R' k'. classify_range [length P..<n] t v (map Some P @ map Some R @ replicate k None)
             = Inr (map Some P @ map Some R' @ replicate k' None)
           \<and> take (n - length P) R' = take (n - length P) (rank_insert t v R)
           \<and> length R + k \<le> length R' + k'"
  using assms
proof (induction R arbitrary: P)
  case Nil
  show ?case
  proof (cases "length P < n")
    case False
    then have "classify_range [length P..<n] t v (map Some P @ map Some [] @ replicate k None)
        = Inr (map Some P @ map Some [] @ replicate k None)" by simp
    with False show ?thesis by fastforce
  next
    case True
    with Nil.prems obtain k0 where k: "k = Suc k0" by (cases k) auto
    from True have upt: "[length P..<n] = length P # [Suc (length P)..<n]" by (simp add: upt_rec)
    have "classify_range [length P..<n] t v (map Some P @ map Some [] @ replicate k None)
        = Inr (map Some P @ map Some [(t, [Some v])] @ replicate k0 None)"
      unfolding upt k by (simp add: nth_append list_update_append)
    moreover have "take (n - length P) [(t, [Some v])] = take (n - length P) (rank_insert t v [])"
      by simp
    moreover have "length ([] :: (int \<times> string option list) list) + k \<le> length [(t, [Some v])] + k0"
      using k by simp
    ultimately show ?thesis by blast
  qed
next
  case (Cons slot R)
  obtain t' vs where slot: "slot = (t', vs)" by (cases slot)
  show ?case
  proof (cases "length P < n")
    case False
    then have "classify_range [length P..<n] t v (map Some P @ map Some (slot # R) @ replicate k None)
        = Inr (map Some P @ map Some (slot # R) @ replicate k None)" by simp
    with False show ?thesis by fastforce
  next
    case True
    then have upt: "[length P..<n] = length P # [Suc (length P)..<n]" by (simp add: upt_rec)
    let ?tops = "map Some P @ map Some (slot # R) @ replicate k None"
    have at: "?tops ! length P = Some (t', vs)" by (simp add: nth_append slot)
    have len: "\<not> length ?tops \<le> length P" by simp
    show ?thesis
    proof (cases "t = t'")
      case True
      have "classify_range [length P..<n] t v ?tops
          = Inr (map Some P @ map Some ((t', vs @ [Some v]) # R) @ replicate k None)"
        unfolding upt using True at len by (simp add: list_update_append slot)
      moreover have "take (n - length P) ((t', vs @ [Some v]) # R)
          = take (n - length P) (rank_insert t v (slot # R))"
        using True slot by simp
      moreover have "length (slot # R) + k \<le> length ((t', vs @ [Some v]) # R) + k" by simp
      ultimately show ?thesis by blast
    next
      case neq: False
      show ?thesis
      proof (cases "t' < t")
        case True
        have "classify_range [length P..<n] t v ?tops
            = Inr (map Some P @ map Some ((t, [Some v]) # slot # R) @ replicate k None)"
          unfolding upt using True neq at len by (simp add: slot)
        moreover have "take (n - length P) ((t, [Some v]) # slot # R)
            = take (n - length P) (rank_insert t v (slot # R))"
          using True neq slot by simp
        moreover have "length (slot # R) + k \<le> length ((t, [Some v]) # slot # R) + k" by simp
        ultimately show ?thesis by blast
      next
        case False
        have step: "classify_range [length P..<n] t v ?tops
            = classify_range [Suc (length P)..<n] t v ?tops"
          unfolding upt using False neq at len by simp
        have shape: "?tops = map Some (P @ [slot]) @ map Some R @ replicate k None" by simp
        from Cons.prems have "n \<le> length (P @ [slot]) + length R + k" by simp
        from Cons.IH [OF this] obtain R1 k1 where
          run: "classify_range [length (P @ [slot])..<n] t v
                  (map Some (P @ [slot]) @ map Some R @ replicate k None)
                = Inr (map Some (P @ [slot]) @ map Some R1 @ replicate k1 None)"
          and tk: "take (n - length (P @ [slot])) R1
                = take (n - length (P @ [slot])) (rank_insert t v R)"
          and ln: "length R + k \<le> length R1 + k1"
          by blast
        from True obtain m where m: "n - length P = Suc m" and m': "n - length (P @ [slot]) = m"
          by (cases "n - length P") auto
        have "classify_range [length P..<n] t v ?tops
            = Inr (map Some P @ map Some (slot # R1) @ replicate k1 None)"
          using step run shape by simp
        moreover have "take (n - length P) (slot # R1)
            = take (n - length P) (rank_insert t v (slot # R))"
          using False neq slot tk m m' by simp
        moreover have "length (slot # R) + k \<le> length (slot # R1) + k1" using ln by simp
        ultimately show ?thesis by blast
      qed
    qed
  qed
qed

lemma classify_rank_insert:
  assumes "nat num \<le> length R + k"
  shows "\<exists>R' k'. classify num t (Some v) (map Some R @ replicate k None)
             = Inr (map Some R' @ replicate k' None)
           \<and> take (nat num) R' = take (nat num) (rank_insert t v R)
           \<and> nat num \<le> length R' + k'"
proof -
  from assms have "nat num \<le> length ([] :: (int \<times> string option list) list) + length R + k"
    by simp
  from classify_range_rank_insert [OF this, of t v] obtain R' k' where
    run: "classify_range [0..<nat num] t v (map Some R @ replicate k None)
       = Inr (map Some R' @ replicate k' None)"
    and tk: "take (nat num) R' = take (nat num) (rank_insert t v R)"
    and ln: "length R + k \<le> length R' + k'"
    by auto
  from run have "classify num t (Some v) (map Some R @ replicate k None)
       = Inr (map Some R' @ replicate k' None)"
    by (simp add: classify_def)
  moreover from ln assms have "nat num \<le> length R' + k'" by simp
  ultimately show ?thesis using tk by blast
qed

lemma top_loop_ranking:
  assumes "\<forall>(key, c) \<in> set items. pos < length key \<and> key ! pos \<noteq> None"
    and "nat num \<le> length R + k"
  shows "\<exists>R' k'. top_loop pyint num pos None items (Some g) tot (map Some R @ replicate k None)
             = Inr (map Some R' @ replicate k' None)
           \<and> take (nat num) R'
               = take (nat num) (ranking R (group_runs_from g tot (group_counts pos items)))
           \<and> nat num \<le> length R' + k'"
  using assms
proof (induction items arbitrary: g tot R k)
  case Nil
  from classify_rank_insert [OF Nil.prems(2), of tot g] show ?case
    by (simp add: group_counts_def ranking_def)
next
  case (Cons item items)
  obtain key c where item: "item = (key, c)" by (cases item)
  from Cons.prems(1) item obtain h where
    inrange: "pos < length key" and h: "key ! pos = Some h"
    by auto
  from Cons.prems(1) have rest: "\<forall>(key, c) \<in> set items. pos < length key \<and> key ! pos \<noteq> None"
    by simp
  have counts: "group_counts pos (item # items) = (h, c) # group_counts pos items"
    by (simp add: group_counts_def item h group_key_def)
  show ?case
  proof (cases "h = g")
    case True
    have "top_loop pyint num pos None (item # items) (Some g) tot (map Some R @ replicate k None)
        = top_loop pyint num pos None items (Some g) (tot + c) (map Some R @ replicate k None)"
      using True inrange h by (simp add: item key_at_def key_weight_def and_then_def)
    with Cons.IH [OF rest Cons.prems(2), of g "tot + c"] True counts show ?thesis by simp
  next
    case False
    from classify_rank_insert [OF Cons.prems(2), of tot g] obtain R1 k1 where
      cl: "classify num tot (Some g) (map Some R @ replicate k None)
             = Inr (map Some R1 @ replicate k1 None)"
      and tk: "take (nat num) R1 = take (nat num) (rank_insert tot g R)"
      and ln: "nat num \<le> length R1 + k1"
      by blast
    have step: "top_loop pyint num pos None (item # items) (Some g) tot
                  (map Some R @ replicate k None)
        = top_loop pyint num pos None items (Some h) c (map Some R1 @ replicate k1 None)"
      using False inrange h cl by (simp add: item key_at_def key_weight_def and_then_def)
    from Cons.IH [OF rest ln, of h c] obtain R' k' where
      run: "top_loop pyint num pos None items (Some h) c (map Some R1 @ replicate k1 None)
             = Inr (map Some R' @ replicate k' None)"
      and tk': "take (nat num) R'
             = take (nat num) (ranking R1 (group_runs_from h c (group_counts pos items)))"
      and ln': "nat num \<le> length R' + k'"
      by blast
    have "take (nat num) R'
        = take (nat num) (ranking R (group_runs_from g tot (group_counts pos (item # items))))"
      using tk' take_ranking_cong [OF tk, of "group_runs_from h c (group_counts pos items)"]
        False counts
      by (simp add: ranking_Cons)
    with step run ln' show ?thesis by auto
  qed
qed

lemma not_none_Some: "not_none (map Some xs) = xs"
  by (induction xs) (simp_all add: not_none_def)

lemma not_none_take:
  "not_none (take n (map Some R @ replicate k None)) = take n R"
proof -
  have "not_none (take n (map Some R @ replicate k None))
      = not_none (map Some (take n R)) @ not_none (replicate (min (n - length R) k) None)"
    by (simp add: not_none_def take_map)
  also have "not_none (replicate (min (n - length R) k) None) = []"
    by (simp add: not_none_def)
  finally show ?thesis by (simp add: not_none_Some)
qed

lemma sorted_by_group_present:
  assumes "\<forall>(key, c) \<in> set items. pos < length key \<and> key ! pos \<noteq> None"
  shows "sorted_by_group pos items = Inr (sort_key (\<lambda>(key, c). group_key (key ! pos)) items)"
proof -
  from assms have "\<not> (\<exists>(key, c) \<in> set items. length key \<le> pos)" by fastforce
  moreover from assms have "\<not> (\<exists>(key, c) \<in> set items. key ! pos = None)" by fastforce
  ultimately show ?thesis by (simp add: sorted_by_group_def)
qed

lemma top_events_refines_ranking:
  assumes "index_of (key_gids rule) gid = Inr pos"
    and "\<forall>(key, c) \<in> set (results rule). pos < length key \<and> key ! pos \<noteq> None"
  shows "top_events pyint rule num None usemax gid = Inr (top_ranking num pos (results rule))"
proof (cases "results rule = []")
  case True
  then show ?thesis
    by (simp add: top_events_def top_ranking_def group_counts_def group_runs_def ranking_def)
next
  case False
  let ?f = "\<lambda>(key, c :: int). group_key ((key :: result_key) ! pos)"
  let ?items = "sort_key ?f (results rule)"
  from assms(2) have shape: "\<forall>(key, c) \<in> set ?items. pos < length key \<and> key ! pos \<noteq> None"
    by simp
  from False have "?items \<noteq> []" by (metis length_sort list.size(3) length_0_conv)
  then obtain item rest where items: "?items = item # rest" by (cases ?items) auto
  obtain key c where item: "item = (key, c)" by (cases item)
  from shape items item obtain h where inrange: "pos < length key" and h: "key ! pos = Some h"
    by auto
  from shape items have rest: "\<forall>(key, c) \<in> set rest. pos < length key \<and> key ! pos \<noteq> None"
    by simp
  have start: "top_loop pyint num pos None ?items None 0 (replicate (nat num) None)
      = top_loop pyint num pos None rest (Some h) c (map Some [] @ replicate (nat num) None)"
    using inrange h
    by (simp add: items item key_at_def key_weight_def and_then_def classify_def)
  have "nat num \<le> length ([] :: (int \<times> string option list) list) + nat num" by simp
  from top_loop_ranking [OF rest this, of pyint h c] obtain R' k' where
    run: "top_loop pyint num pos None rest (Some h) c (map Some [] @ replicate (nat num) None)
           = Inr (map Some R' @ replicate k' None)"
    and tk: "take (nat num) R'
           = take (nat num) (ranking [] (group_runs_from h c (group_counts pos rest)))"
    by blast
  have "group_counts pos ?items = (h, c) # group_counts pos rest"
    unfolding items by (simp add: item group_counts_def h group_key_def)
  then have runs:
    "group_runs (group_counts pos ?items) = group_runs_from h c (group_counts pos rest)"
    by (simp add: group_runs_def)
  have loop: "top_loop pyint num pos None ?items None 0 (replicate (nat num) None)
           = Inr (map Some R' @ replicate k' None)"
    using start run by simp
  have final: "not_none (py_take num (map Some R' @ replicate k' None))
           = top_ranking num pos (results rule)"
  proof (cases "0 \<le> num")
    case True
    then have "not_none (py_take num (map Some R' @ replicate k' None)) = take (nat num) R'"
      using not_none_take [of "nat num" R' k'] by (simp add: py_take_def del: take_append)
    with tk runs show ?thesis by (simp add: top_ranking_def)
  next
    case neg: False
    then have z: "nat num = 0" by simp
    from top_loop_no_slots [OF z loop] z have "map Some R' @ replicate k' None = []" by simp
    with z show ?thesis by (simp add: py_take_def not_none_def top_ranking_def)
  qed
  from False assms(1) show ?thesis
    by (simp add: top_events_def Let_def and_then_def sorted_by_group_present [OF assms(2)]
          loop final)
qed

lemma top_ranking_descending:
  "sorted_wrt (>) (map fst (top_ranking num pos items))"
proof -
  have "sorted_wrt (>) (map fst ([] :: (int \<times> string option list) list))" by simp
  from ranking_descending [OF this] show ?thesis
    by (simp add: top_ranking_def take_map [symmetric] sorted_wrt_take)
qed

lemma top_ranking_length: "length (top_ranking num pos items) \<le> nat num"
  by (simp add: top_ranking_def)

lemma sort_key_three_groups:
  fixes f :: "'a \<Rightarrow> string"
  assumes "\<forall>x \<in> set xs. f x = a \<or> f x = b \<or> f x = c" and "a < b" and "b < c"
  shows "sort_key f xs
       = filter (\<lambda>x. f x = a) xs @ filter (\<lambda>x. f x = b) xs @ filter (\<lambda>x. f x = c) xs"
proof (rule properties_for_sort_key)
  from assms have ne: "a \<noteq> b" "b \<noteq> c" "a \<noteq> c" by auto
  let ?ys = "filter (\<lambda>x. f x = a) xs @ filter (\<lambda>x. f x = b) xs @ filter (\<lambda>x. f x = c) xs"
  show "mset ?ys = mset xs" using assms(1) ne by (induction xs) auto
  have const: "sorted (map f (filter (\<lambda>x. f x = g) xs))" for g by (induction xs) auto
  show "sorted (map f ?ys)" using assms(2,3) const by (auto simp: sorted_append)
  fix k assume "k \<in> set ?ys"
  with assms(1) have k: "f k = a \<or> f k = b \<or> f k = c" by auto
  have "\<And>g. g = a \<or> g = b \<or> g = c \<Longrightarrow> filter (\<lambda>x. g = f x) ?ys = filter (\<lambda>x. g = f x) xs"
    using ne by (auto simp: filter_empty_conv intro: filter_cong)
  from this [OF k] show "filter (\<lambda>x. f k = f x) ?ys = filter (\<lambda>x. f k = f x) xs" .
qed

lemma group_runs_from_same:
  "\<forall>x \<in> set ys. fst x = g \<Longrightarrow>
     group_runs_from g tot (ys @ zs) = group_runs_from g (tot + sum_list (map snd ys)) zs"
  by (induction ys arbitrary: tot) (auto simp: add.assoc)

lemma group_runs_from_next:
  assumes "ys \<noteq> []" and "\<forall>x \<in> set ys. fst x = h" and "h \<noteq> g"
  shows "group_runs_from g tot (ys @ zs) = (g, tot) # group_runs_from h (sum_list (map snd ys)) zs"
proof -
  from assms(1) obtain y ys' where ys: "ys = y # ys'" by (cases ys) auto
  obtain c where y: "y = (h, c)" using assms(2) ys by (cases y) auto
  from assms(2) ys have "\<forall>x \<in> set ys'. fst x = h" by simp
  from group_runs_from_same [OF this, of c zs] assms(3) show ?thesis
    by (simp add: ys y)
qed

lemma group_runs_first:
  assumes "ys \<noteq> []" and "\<forall>x \<in> set ys. fst x = h"
  shows "group_runs (ys @ zs) = group_runs_from h (sum_list (map snd ys)) zs"
proof -
  from assms(1) obtain y ys' where ys: "ys = y # ys'" by (cases ys) auto
  obtain c where y: "y = (h, c)" using assms(2) ys by (cases y) auto
  from assms(2) ys have "\<forall>x \<in> set ys'. fst x = h" by simp
  from group_runs_from_same [OF this, of c zs] show ?thesis
    by (simp add: ys y group_runs_def)
qed

lemma group_runs_three_groups:
  assumes shape: "\<forall>(key, n) \<in> set items. key ! pos \<in> {Some a, Some b, Some c}"
    and order: "a < b" "b < c"
    and present: "\<forall>g \<in> {a, b, c}. \<exists>(key, n) \<in> set items. key ! pos = Some g"
  shows "group_runs (group_counts pos (sort_key (\<lambda>(key, n). group_key (key ! pos)) items))
       = [(a, group_total pos a items), (b, group_total pos b items),
          (c, group_total pos c items)]"
proof -
  let ?f = "\<lambda>(key, n :: int). group_key ((key :: result_key) ! pos)"
  let ?p = "\<lambda>(key, n :: int). (group_key ((key :: result_key) ! pos), n)"
  let ?G = "\<lambda>g. map ?p (filter (\<lambda>x. ?f x = g) items)"
  from shape have "\<forall>x \<in> set items. ?f x = a \<or> ?f x = b \<or> ?f x = c"
    by (auto simp: group_key_def)
  from sort_key_three_groups [OF this order]
  have sorted: "group_counts pos (sort_key ?f items) = ?G a @ ?G b @ ?G c @ []"
    by (simp add: group_counts_def)
  have sel: "filter (\<lambda>x. ?f x = g) items = filter (\<lambda>(key, n). key ! pos = Some g) items"
    if "g \<in> {a, b, c}" for g
    using shape by (intro filter_cong) (auto simp: group_key_def)
  have all: "\<forall>x \<in> set (?G g). fst x = g" for g by auto
  have tot: "sum_list (map snd (?G g)) = group_total pos g items" if "g \<in> {a, b, c}" for g
    using sel [OF that] by (simp add: group_total_def o_def split_def)
  have ne: "?G g \<noteq> []" if "g \<in> {a, b, c}" for g
  proof -
    from present that obtain key n where "(key, n) \<in> set items" "key ! pos = Some g" by blast
    then have "(key, n) \<in> set (filter (\<lambda>x. ?f x = g) items)" by (simp add: group_key_def)
    then have "filter (\<lambda>x. ?f x = g) items \<noteq> []" by (metis empty_iff empty_set)
    then show ?thesis by simp
  qed
  from order have neq: "b \<noteq> a" "c \<noteq> b" by auto
  show ?thesis
    unfolding sorted
    by (simp only: group_runs_first [OF ne all] group_runs_from_next [OF ne all neq(1)]
          group_runs_from_next [OF ne all neq(2)] tot insert_iff simp_thms
          group_runs_from.simps)
qed

lemma top_ranking_tie:
  assumes shape: "\<forall>(key, n) \<in> set items. key ! pos \<in> {Some ''A'', Some ''B'', Some ''C''}"
    and totals: "group_total pos ''A'' items = 10" "group_total pos ''B'' items = 10"
      "group_total pos ''C'' items = 7"
  shows "top_ranking num pos items
       = take (nat num) [(10, [Some ''A'', Some ''B'']), (7, [Some ''C''])]"
proof -
  have present: "\<exists>(key, n) \<in> set items. key ! pos = Some g" if "group_total pos g items \<noteq> 0" for g
  proof (rule ccontr)
    assume "\<not> ?thesis"
    then have "filter (\<lambda>(key, n). key ! pos = Some g) items = []"
      by (auto simp: filter_empty_conv)
    with that show False by (simp add: group_total_def)
  qed
  have "\<forall>g \<in> {''A'', ''B'', ''C''}. \<exists>(key, n) \<in> set items. key ! pos = Some g"
    using totals by (auto intro!: present)
  from group_runs_three_groups [OF shape _ _ this] totals show ?thesis
    by (simp add: top_ranking_def ranking_def)
qed

text \<open>
  Claim C6. Let \<open>gid\<close> be a key group of the rule, at position \<open>pos\<close>, and let every key
  of the result table have a group value (not \<^verbatim>\<open>None\<close>) there. Then
  \<^verbatim>\<open>top_events(num, None, usemax, gid)\<close> returns the ranking of the specification: the
  keys sorted by group value, the counts of each group value added up, each total put
  into a ranking of descending totals in which a tie joins the slot of its total, and
  the first \<open>num\<close> slots of that ranking. The totals of the slots descend strictly, so
  two group values of equal total never have two slots, and no call returns more than
  \<open>num\<close> slots. In particular, whatever the number of keys, their hosts, their counts and
  their order of insertion, a table whose group values are \<open>A\<close> with total 10, \<open>B\<close> with
  total 10 and \<open>C\<close> with total 7 gives \<^verbatim>\<open>[[10, ['A', 'B']], [7, ['C']]]\<close> cut to \<open>num\<close>
  slots.
\<close>

theorem top_events_tie_grouping:
  assumes "index_of (key_gids rule) gid = Inr pos"
    and "\<forall>(key, c) \<in> set (results rule). pos < length key \<and> key ! pos \<noteq> None"
  shows "top_events pyint rule num None usemax gid = Inr (top_ranking num pos (results rule))
       \<and> sorted_wrt (>) (map fst (top_ranking num pos (results rule)))
       \<and> (\<forall>n valfld um g res. top_events pyint rule n valfld um g = Inr res
             \<longrightarrow> length res \<le> nat n)
       \<and> ((\<forall>(key, c) \<in> set (results rule). key ! pos \<in> {Some ''A'', Some ''B'', Some ''C''})
            \<and> group_total pos ''A'' (results rule) = 10
            \<and> group_total pos ''B'' (results rule) = 10
            \<and> group_total pos ''C'' (results rule) = 7
          \<longrightarrow> top_events pyint rule num None usemax gid
                = Inr (take (nat num) [(10, [Some ''A'', Some ''B'']), (7, [Some ''C''])]))"
proof -
  have refines: "top_events pyint rule num None usemax gid
      = Inr (top_ranking num pos (results rule))"
    by (rule top_events_refines_ranking [OF assms])
  have tie: "top_events pyint rule num None usemax gid
      = Inr (take (nat num) [(10, [Some ''A'', Some ''B'']), (7, [Some ''C''])])"
    if "\<forall>(key, c) \<in> set (results rule). key ! pos \<in> {Some ''A'', Some ''B'', Some ''C''}"
      and "group_total pos ''A'' (results rule) = 10"
      and "group_total pos ''B'' (results rule) = 10"
      and "group_total pos ''C'' (results rule) = 7"
    using refines top_ranking_tie [OF that] by simp
  have bound: "length res \<le> nat n"
    if "top_events pyint rule n valfld um g = Inr res" for n valfld um g res
    using that by (rule top_events_length)
  from refines top_ranking_descending [of num pos "results rule"] tie bound
  show ?thesis by blast
qed

theorem top_events_tie_grouping_witness:
  "top_events (\<lambda>s. None)
     (ex_top_rule [([Some ''host1'', Some ''C''], 3), ([Some ''host2'', Some ''A''], 4),
                   ([Some ''host1'', Some ''A''], 6), ([Some ''host2'', Some ''B''], 10),
                   ([Some ''host2'', Some ''C''], 4)]) 2 None False ''user''
     = Inr [(10, [Some ''A'', Some ''B'']), (7, [Some ''C''])]
   \<and> top_events (\<lambda>s. None)
     (ex_top_rule [([Some ''host1'', Some ''C''], 3), ([Some ''host2'', Some ''A''], 4),
                   ([Some ''host1'', Some ''A''], 6), ([Some ''host2'', Some ''B''], 10),
                   ([Some ''host2'', Some ''C''], 4)]) 1 None False ''host''
     = Inr [(18, [Some ''host2''])]"
proof -
  let ?rs = "[([Some ''host1'', Some ''C''], 3), ([Some ''host2'', Some ''A''], 4),
              ([Some ''host1'', Some ''A''], 6), ([Some ''host2'', Some ''B''], 10),
              ([Some ''host2'', Some ''C''], 4 :: int)]"
  have user: "index_of (key_gids (ex_top_rule ?rs)) ''user'' = Inr 1"
    by (simp add: index_of_def ex_top_rule_def)
  have host: "index_of (key_gids (ex_top_rule ?rs)) ''host'' = Inr 0"
    by (simp add: index_of_def ex_top_rule_def)
  have present1: "\<forall>(key, c) \<in> set (results (ex_top_rule ?rs)). 1 < length key \<and> key ! 1 \<noteq> None"
    by (simp add: ex_top_rule_def)
  have present0: "\<forall>(key, c) \<in> set (results (ex_top_rule ?rs)). 0 < length key \<and> key ! 0 \<noteq> None"
    by (simp add: ex_top_rule_def)
  have groups: "\<forall>(key, c) \<in> set (results (ex_top_rule ?rs)).
      key ! 1 \<in> {Some ''A'', Some ''B'', Some ''C''}"
    by (simp add: ex_top_rule_def)
  have totals: "group_total 1 ''A'' (results (ex_top_rule ?rs)) = 10"
    "group_total 1 ''B'' (results (ex_top_rule ?rs)) = 10"
    "group_total 1 ''C'' (results (ex_top_rule ?rs)) = 7"
    by (simp_all add: group_total_def ex_top_rule_def)
  have ranked: "top_ranking 1 0 (results (ex_top_rule ?rs)) = [(18, [Some ''host2''])]"
    by (simp add: top_ranking_def group_counts_def group_runs_def ranking_def group_key_def
          ex_top_rule_def)
  from top_events_tie_grouping [OF user present1, of "\<lambda>s. None" 2 False] groups totals
  have "top_events (\<lambda>s. None) (ex_top_rule ?rs) 2 None False ''user''
      = Inr (take (nat 2) [(10, [Some ''A'', Some ''B'']), (7, [Some ''C''])])"
    by blast
  then have two: "top_events (\<lambda>s. None) (ex_top_rule ?rs) 2 None False ''user''
      = Inr [(10, [Some ''A'', Some ''B'']), (7, [Some ''C''])]"
    by simp
  from top_events_tie_grouping [OF host present0, of "\<lambda>s. None" 1 False]
  have "top_events (\<lambda>s. None) (ex_top_rule ?rs) 1 None False ''host''
      = Inr (top_ranking 1 0 (results (ex_top_rule ?rs)))"
    by blast
  with ranked have one: "top_events (\<lambda>s. None) (ex_top_rule ?rs) 1 None False ''host''
      = Inr [(18, [Some ''host2''])]"
    by simp
  from two one show ?thesis by (rule conjI)
qed

subsection \<open>The full-match flag of the rules of an application\<close>

lemma AppRule_init_flag:
  assumes "AppRule_init C nm p fk = Inr r"
    and "\<forall>ks. fk = Some ks \<longrightarrow> length fg \<le> length ks"
  shows "(filter_keys r \<noteq> [] \<longrightarrow> full_match r)
       \<and> (fg \<noteq> [] \<longrightarrow> (full_match r \<longleftrightarrow> filter_keys r \<noteq> []))"
  using AppRule_init_fields [OF assms(1)] assms(2) by (cases fk) auto

lemma filter_group_rules_flag:
  assumes "filter_group_rules C E S thr opt pat fgs rs = Inr rs'"
    and "\<forall>r \<in> set rs. (filter_keys r \<noteq> [] \<longrightarrow> full_match r)
           \<and> (named \<longrightarrow> (full_match r \<longleftrightarrow> filter_keys r \<noteq> []))"
    and "named \<longrightarrow> (\<forall>fg \<in> set fgs. fg \<noteq> [])"
  shows "\<forall>r \<in> set rs'. (filter_keys r \<noteq> [] \<longrightarrow> full_match r)
           \<and> (named \<longrightarrow> (full_match r \<longleftrightarrow> filter_keys r \<noteq> []))"
  using assms
proof (induction fgs arbitrary: rs)
  case Nil
  then show ?case by simp
next
  case (Cons fg fgs)
  obtain p fkeys where E: "E pat fg = (p, fkeys)" by (cases "E pat fg")
  from Cons.prems(3) have named: "named \<longrightarrow> fg \<noteq> []"
    and rest_named: "named \<longrightarrow> (\<forall>fg \<in> set fgs. fg \<noteq> [])" by auto
  show ?case
  proof (cases "length fg \<le> length fkeys")
    case True
    with Cons.prems(1) E obtain r where r: "AppRule_init C opt (S p) (Some fkeys) = Inr r"
      and rest: "filter_group_rules C E S thr opt pat fgs (rs @ [r]) = Inr rs'"
      by (auto simp: and_then_eq_Inr)
    from True have "\<forall>ks. Some fkeys = Some ks \<longrightarrow> length fg \<le> length ks" by simp
    from AppRule_init_flag [OF r this] named Cons.prems(2)
    have "\<forall>x \<in> set (rs @ [r]). (filter_keys x \<noteq> [] \<longrightarrow> full_match x)
           \<and> (named \<longrightarrow> (full_match x \<longleftrightarrow> filter_keys x \<noteq> []))"
      by auto
    from Cons.IH [OF rest this rest_named] show ?thesis .
  next
    case False
    show ?thesis
    proof (cases thr)
      case True
      with False Cons.prems(1) E obtain r where r: "AppRule_init C opt (S p) None = Inr r"
        and rest: "filter_group_rules C E S thr opt pat fgs (rs @ [r]) = Inr rs'"
        by (auto simp: and_then_eq_Inr)
      have "\<forall>ks. (None :: string list option) = Some ks \<longrightarrow> length fg \<le> length ks" by simp
      from AppRule_init_flag [OF r this] named Cons.prems(2)
      have "\<forall>x \<in> set (rs @ [r]). (filter_keys x \<noteq> [] \<longrightarrow> full_match x)
           \<and> (named \<longrightarrow> (full_match x \<longleftrightarrow> filter_keys x \<noteq> []))"
        by auto
      from Cons.IH [OF rest this rest_named] show ?thesis .
    next
      case thr: False
      with False Cons.prems(1) E have "filter_group_rules C E S thr opt pat fgs rs = Inr rs'"
        by simp
      from Cons.IH [OF this Cons.prems(2) rest_named] show ?thesis .
    qed
  qed
qed

lemma parse_rules_loop_flag:
  assumes "parse_rules_loop C E S cli opts rs = Inr rs'"
    and "\<forall>r \<in> set rs. (filter_keys r \<noteq> [] \<longrightarrow> full_match r)
           \<and> ((\<forall>fg \<in> set (filters cli). fg \<noteq> [])
                \<longrightarrow> (full_match r \<longleftrightarrow> filter_keys r \<noteq> []))"
  shows "\<forall>r \<in> set rs'. (filter_keys r \<noteq> [] \<longrightarrow> full_match r)
           \<and> ((\<forall>fg \<in> set (filters cli). fg \<noteq> [])
                \<longrightarrow> (full_match r \<longleftrightarrow> filter_keys r \<noteq> []))"
  using assms
proof (induction opts arbitrary: rs)
  case Nil
  then show ?case by simp
next
  case (Cons ov rest)
  obtain opt val where ov: "ov = (opt, val)" by (cases ov)
  show ?case
  proof (cases "filters cli = []")
    case True
    with Cons.prems(1) ov obtain r where
      r: "AppRule_init C opt (S (filter (\<lambda>c. c \<noteq> CHR 0x0A) val)) None = Inr r"
      and rest: "parse_rules_loop C E S cli rest (rs @ [r]) = Inr rs'"
      by (auto simp: and_then_eq_Inr)
    from AppRule_init_fields [OF r] True Cons.prems(2)
    have "\<forall>x \<in> set (rs @ [r]). (filter_keys x \<noteq> [] \<longrightarrow> full_match x)
           \<and> ((\<forall>fg \<in> set (filters cli). fg \<noteq> [])
                \<longrightarrow> (full_match x \<longleftrightarrow> filter_keys x \<noteq> []))"
      by auto
    from Cons.IH [OF rest this] show ?thesis .
  next
    case False
    with Cons.prems(1) ov obtain rs1 where
      fg: "filter_group_rules C E S (thread cli) opt (filter (\<lambda>c. c \<noteq> CHR 0x0A) val) (filters cli) rs = Inr rs1"
      and rest: "parse_rules_loop C E S cli rest rs1 = Inr rs'"
      by (auto simp: and_then_eq_Inr)
    have "(\<forall>fg \<in> set (filters cli). fg \<noteq> [])
            \<longrightarrow> (\<forall>fg \<in> set (filters cli). fg \<noteq> [])" by simp
    from Cons.IH [OF rest filter_group_rules_flag [OF fg Cons.prems(2) this]] show ?thesis .
  qed
qed

text \<open>
  Claim C3, as written, fails. With the filter group \<open>user\<close> and thread mode, the
  constructor builds an application that has filter rules; its rule \<open>session\<close>, which has
  no filter keys, gets \<^verbatim>\<open>full_match = False\<close>, and its filter rule \<open>login\<close> gets
  \<^verbatim>\<open>full_match = True\<close>.
\<close>

theorem full_match_counterexample:
  "init_summary
     (AppLogParser_init ex_compile ex_exact_sub id ''app'' ex_args None (Some ex_rule_options))
   = Inr (True, [(''session'', [], False), (''login'', [''user''], True)])"
  by (simp add: init_summary_def rule_summary_def AppLogParser_init_def parse_rules_def
      AppRule_init_def check_key_gids_def collect_key_gids_def is_used_def ex_rule_defs)

text \<open>
  Claim C3, amended. In a constructed application, \<^verbatim>\<open>has_filters\<close> says whether some
  rule has a non-empty list of filter keys. A rule that has filter keys has
  \<^verbatim>\<open>full_match = True\<close>, and so has every rule of an application without filter rules.
  When every filter group of the command line names at least one field, the flag is
  true exactly in these two cases: a rule without filter keys in an application that
  has filter rules has \<^verbatim>\<open>full_match = False\<close>. (For an empty filter group the
  constructor makes a rule with \<^verbatim>\<open>filter_keys=[]\<close>, whose flag is true and whose list of
  filter keys is empty.)
\<close>

theorem full_match_of_constructed_rule:
  assumes init: "AppLogParser_init C E S nm cli nc opts = Inr app"
    and r: "r \<in> set (rules app)"
  shows "(has_filters app \<longleftrightarrow> (\<exists>x \<in> set (rules app). filter_keys x \<noteq> []))
       \<and> (filter_keys r \<noteq> [] \<or> \<not> has_filters app \<longrightarrow> full_match r)
       \<and> ((\<forall>fg \<in> set (filters cli). fg \<noteq> []) \<longrightarrow>
            (full_match r \<longleftrightarrow> filter_keys r \<noteq> [] \<or> \<not> has_filters app))"
proof -
  from init obtain rules0 where
    p: "parse_rules C E S cli opts = Inr rules0"
    and hf: "has_filters app = (\<exists>rule \<in> set (filter (is_used cli) rules0). filter_keys rule \<noteq> [])"
    and rs: "rules app = (if has_filters app
                         then sort_key filter_keys (filter (is_used cli) rules0)
                         else map (\<lambda>rule. rule\<lparr> full_match := True \<rparr>) (filter (is_used cli) rules0))"
    by (auto simp: AppLogParser_init_def and_then_eq_Inr Let_def)
  from p have built: "\<forall>x \<in> set rules0. (filter_keys x \<noteq> [] \<longrightarrow> full_match x)
           \<and> ((\<forall>fg \<in> set (filters cli). fg \<noteq> [])
                \<longrightarrow> (full_match x \<longleftrightarrow> filter_keys x \<noteq> []))"
    by (cases opts) (auto simp: parse_rules_def dest: parse_rules_loop_flag)
  have flt: "has_filters app \<longleftrightarrow> (\<exists>x \<in> set (rules app). filter_keys x \<noteq> [])"
  proof (cases "has_filters app")
    case True
    with hf rs show ?thesis by auto
  next
    case False
    with hf rs show ?thesis by auto
  qed
  have flag: "(filter_keys r \<noteq> [] \<or> \<not> has_filters app \<longrightarrow> full_match r)
       \<and> ((\<forall>fg \<in> set (filters cli). fg \<noteq> []) \<longrightarrow>
            (full_match r \<longleftrightarrow> filter_keys r \<noteq> [] \<or> \<not> has_filters app))"
  proof (cases "has_filters app")
    case True
    with rs r have mem: "r \<in> set rules0" by auto
    from built mem True show ?thesis by auto
  next
    case False
    with rs r have "full_match r" by auto
    with False show ?thesis by simp
  qed
  from flt flag show ?thesis by (rule conjI)
qed

theorem full_match_of_constructed_rule_witness:
  "AppLogParser_init ex_compile ex_exact_sub id ''app'' ex_args None (Some ex_rule_options)
     = Inr (ex_app [ex_plain_session_rule, ex_login_rule] True)
   \<and> has_filters (ex_app [ex_plain_session_rule, ex_login_rule] True)
   \<and> filter_keys ex_plain_session_rule = [] \<and> \<not> full_match ex_plain_session_rule
   \<and> filter_keys ex_login_rule \<noteq> [] \<and> full_match ex_login_rule"
proof -
  let ?app = "ex_app [ex_plain_session_rule, ex_login_rule] True"
  have h: "AppLogParser_init ex_compile ex_exact_sub id ''app'' ex_args None (Some ex_rule_options)
     = Inr ?app"
    by (simp add: AppLogParser_init_def parse_rules_def AppRule_init_def check_key_gids_def
        collect_key_gids_def is_used_def ex_rule_defs)
  have plain: "ex_plain_session_rule \<in> set (rules ?app)" by (simp add: ex_app_def)
  have login: "ex_login_rule \<in> set (rules ?app)" by (simp add: ex_app_def)
  have named: "\<forall>fg \<in> set (filters ex_args). fg \<noteq> []" by (simp add: ex_args_def)
  have hf: "has_filters ?app" by (simp add: ex_app_def)
  have k0: "filter_keys ex_plain_session_rule = []"
    by (simp add: ex_plain_session_rule_def)
  have k1: "filter_keys ex_login_rule \<noteq> []" by (simp add: ex_login_rule_def)
  from full_match_of_constructed_rule [OF h plain] named hf k0
  have f0: "\<not> full_match ex_plain_session_rule" by blast
  from full_match_of_constructed_rule [OF h login] k1
  have f1: "full_match ex_login_rule" by blast
  from h hf k0 f0 k1 f1 show ?thesis by blast
qed

subsection \<open>The thread identifier in the outcome\<close>

text \<open>
  Claim C4, as written, fails. In thread mode, the pattern of the rule \<open>session\<close> has the
  group \<open>thread\<close>; on the message \<open>t1: done\<close> it captures the thread \<open>t1\<close> and nothing for
  its filter key \<open>user\<close>. \<^verbatim>\<open>process\<close> returns \<^verbatim>\<open>(False, None, None, None)\<close>: the thread
  identifier is not in the outcome.
\<close>

theorem thread_on_rejection_counterexample:
  "captured ex_session_rule ''t1: done'' ''thread'' = Some (Some ''t1'')
   \<and> captured ex_session_rule ''t1: done'' ''user'' = Some None
   \<and> process (ex_app [ex_session_rule] True) (ex_event ''t1: done'')
       = Inr ((False, None, None, None), (ex_app [ex_session_rule] True)\<lparr> p_last_rule := Some 0 \<rparr>)"
  by (simp add: process_eval_defs ex_rule_defs)

text \<open>
  Claim C4, amended. In thread mode, for the first rule that matches, if its pattern has
  the group \<open>thread\<close>: when some filter key has the value \<^verbatim>\<open>None\<close> the outcome is
  \<^verbatim>\<open>(False, None, None, None)\<close>, without the thread identifier; when none has, the
  outcome is a match that carries the rule's \<^verbatim>\<open>full_match\<close> and the captured thread
  identifier.
\<close>

theorem thread_id_on_match_only:
  assumes rules: "rules app = pre @ rule # post"
    and pre: "\<forall>r \<in> set pre. search (regexp r) (message ld) = None"
    and m: "search (regexp rule) (message ld) = Some m"
    and thr: "p_thread app" "''thread'' \<in> set (groupindex (regexp rule))"
    and vals: "vals = fst (extract_values (name_cache app) rule m ld)"
    and total: "\<forall>k \<in> set (filter_keys rule) \<union> set (key_gids rule). vals k \<noteq> None"
  shows "((\<exists>k \<in> set (filter_keys rule). vals k = Some None) \<longrightarrow>
            process app ld
              = Inr ((False, None, None, None), app\<lparr> p_last_rule := Some (length pre) \<rparr>))
       \<and> ((\<forall>k \<in> set (filter_keys rule). vals k \<noteq> Some None) \<longrightarrow>
            (\<exists>app'. process app ld
               = Inr ((True, Some (full_match rule), m ''thread'',
                       snd (extract_values (name_cache app) rule m ld)), app')))"
proof (intro conjI impI)
  assume "\<exists>k \<in> set (filter_keys rule). vals k = Some None"
  with total show "process app ld
      = Inr ((False, None, None, None), app\<lparr> p_last_rule := Some (length pre) \<rparr>)"
    unfolding process_first_match [OF rules pre m] vals
    by (intro rule_matched_rejected) auto
next
  assume "\<forall>k \<in> set (filter_keys rule). vals k \<noteq> Some None"
  with total have "\<exists>app'. rule_matched app ld (length pre) rule m =
           Inr ((True, Some (full_match rule),
                 (if p_thread app \<and> ''thread'' \<in> set (groupindex (regexp rule))
                  then m ''thread'' else None),
                 snd (extract_values (name_cache app) rule m ld)), app')"
    unfolding vals by (intro rule_matched_accepted) auto
  with thr show "\<exists>app'. process app ld
               = Inr ((True, Some (full_match rule), m ''thread'',
                       snd (extract_values (name_cache app) rule m ld)), app')"
    unfolding process_first_match [OF rules pre m] by simp
qed

theorem thread_id_on_match_only_witness:
  "process (ex_app [ex_session_rule] True) (ex_event ''t1: done'')
       = Inr ((False, None, None, None), (ex_app [ex_session_rule] True)\<lparr> p_last_rule := Some 0 \<rparr>)
   \<and> (\<exists>app'. process (ex_app [ex_session_rule] True) (ex_event ''t1: user=alice'')
          = Inr ((True, Some True, Some ''t1'', None), app'))"
proof -
  let ?app = "ex_app [ex_session_rule] True"
  let ?m0 = "\<lambda>g. if g = ''thread'' then Some ''t1'' else None"
  let ?m1 = "\<lambda>g. if g = ''thread'' then Some ''t1''
                  else if g = ''user'' then Some ''alice'' else None"
  have a: "rules ?app = [] @ ex_session_rule # []" by (simp add: ex_rule_defs)
  have b: "\<forall>r \<in> set []. search (regexp r) (message (ex_event ''t1: done'')) = None" by simp
  have b': "\<forall>r \<in> set []. search (regexp r) (message (ex_event ''t1: user=alice'')) = None"
    by simp
  have c0: "search (regexp ex_session_rule) (message (ex_event ''t1: done'')) = Some ?m0"
    by (simp add: ex_rule_defs)
  have c1: "search (regexp ex_session_rule) (message (ex_event ''t1: user=alice'')) = Some ?m1"
    by (simp add: ex_rule_defs)
  have d: "p_thread ?app" by (simp add: ex_rule_defs)
  have e: "''thread'' \<in> set (groupindex (regexp ex_session_rule))" by (simp add: ex_rule_defs)
  have t0: "\<forall>k \<in> set (filter_keys ex_session_rule) \<union> set (key_gids ex_session_rule).
      fst (extract_values (name_cache ?app) ex_session_rule ?m0 (ex_event ''t1: done'')) k \<noteq> None"
    by (simp add: ex_rule_defs extract_values_def)
  have t1: "\<forall>k \<in> set (filter_keys ex_session_rule) \<union> set (key_gids ex_session_rule).
      fst (extract_values (name_cache ?app) ex_session_rule ?m1 (ex_event ''t1: user=alice'')) k
        \<noteq> None"
    by (simp add: ex_rule_defs extract_values_def)
  from thread_id_on_match_only [OF a b c0 d e refl t0]
    thread_id_on_match_only [OF a b' c1 d e refl t1]
  show ?thesis
    by (simp add: ex_rule_defs extract_values_def)
qed

section \<open>Properties of the matcher engine\<close>

subsection \<open>Steps that leave the counters and the output alone\<close>

lemma quiet_step_trans:
  "quiet_step st (Proceed d) st1 \<Longrightarrow> quiet_step st1 fl st2 \<Longrightarrow> quiet_step st fl st2"
  by (simp add: quiet_step_def)

lemma proceed_then_quiet:
  assumes "proceed_then m f = Inr (fl, st2)"
    and "\<And>fl1 st1. m = Inr (fl1, st1) \<Longrightarrow> quiet_step st fl1 st1"
    and "\<And>d st1. f d st1 = Inr (fl, st2) \<Longrightarrow> quiet_step st1 fl st2"
  shows "quiet_step st fl st2"
proof -
  from assms(1) obtain fl1 st1 where m: "m = Inr (fl1, st1)"
    and rest: "(case fl1 of Proceed d \<Rightarrow> f d st1 | Continue \<Rightarrow> Inr (Continue, st1)
                | Break \<Rightarrow> Inr (Break, st1)) = Inr (fl, st2)"
    by (auto simp: proceed_then_def and_then_eq_Inr)
  show ?thesis
  proof (cases fl1)
    case Continue
    with rest assms(2) [OF m] show ?thesis by auto
  next
    case Break
    with rest assms(2) [OF m] show ?thesis by auto
  next
    case (Proceed d)
    with rest have "f d st1 = Inr (fl, st2)" by simp
    from assms(3) [OF this] assms(2) [OF m] Proceed show ?thesis
      by (auto intro: quiet_step_trans)
  qed
qed

lemma app_counter_incr_frame:
  "app_counter_incr st v = Inr st' \<Longrightarrow>
     v_matching_counter st' = v_matching_counter st \<and> sent st' = sent st
     \<and> v_line_counter st' = v_line_counter st \<and> v_prev_data st' = v_prev_data st"
  by (auto simp: app_counter_incr_def split: option.splits pyval.splits)

lemma check_time_quiet: "check_time env file d st = Inr (fl, st') \<Longrightarrow> quiet_step st fl st'"
  by (auto simp: check_time_def quiet_step_def and_then_eq_Inr Let_def split: if_splits)

lemma check_host_quiet:
  assumes "check_host env d st = Inr (fl, st')"
  shows "quiet_step st fl st'"
proof (cases "e_hosts env \<noteq> [] \<and> host d \<noteq> None")
  case False
  with assms have "fl = Proceed d \<and> st' = st"
    by (cases "host d") (simp_all add: check_host_def split: if_splits)
  then show ?thesis by (simp add: quiet_step_def)
next
  case True
  then obtain hostname where h: "host d = Some hostname" by blast
  let ?known = "hostname \<noteq> [] \<and> hostname \<notin> set (hostset st)"
  let ?hit = "\<exists>host_pattern \<in> set (e_hosts env). host_pattern hostname"
  show ?thesis
  proof (cases ?known)
    case False
    with assms True h have "fl = Proceed d \<and> st' = st"
      by (simp add: check_host_def split: if_splits)
    then show ?thesis by (simp add: quiet_step_def)
  next
    case known: True
    show ?thesis
    proof (cases ?hit)
      case True
      with assms \<open>e_hosts env \<noteq> [] \<and> host d \<noteq> None\<close> h known
      have "fl = Proceed d \<and> st' = st\<lparr> hostset := hostname # hostset st \<rparr>"
        by (simp add: check_host_def)
      then show ?thesis by (simp add: quiet_step_def)
    next
      case False
      with assms \<open>e_hosts env \<noteq> [] \<and> host d \<noteq> None\<close> h known
      have "fl = Continue \<and> st' = st\<lparr> v_prev_data := None \<rparr>"
        by (simp add: check_host_def)
      then show ?thesis by (simp add: quiet_step_def)
    qed
  qed
qed

lemma check_patterns_quiet:
  "\<not> e_thread env \<Longrightarrow> check_patterns env d st = Inr (fl, st') \<Longrightarrow> quiet_step st fl st'"
  by (auto simp: check_patterns_def quiet_step_def Let_def split: if_splits prod.splits)

lemma try_apps_frame:
  "try_apps st d as = Inr (b, st') \<Longrightarrow>
     v_matching_counter st' = v_matching_counter st \<and> sent st' = sent st
     \<and> v_line_counter st' = v_line_counter st"
proof (induction as arbitrary: st)
  case Nil
  then show ?case by simp
next
  case (Cons a as)
  from Cons.prems obtain out app' where
    p: "process (apps st a) d = Inr (out, app')" by (auto simp: and_then_eq_Inr)
  obtain rm fm th md where out: "out = (rm, fm, th, md)" by (cases out)
  let ?st1 = "st\<lparr> v_app := Some (PyApp a), apps := (apps st)(a := app'),
                     v_full_match := fm, v_app_thread := th \<rparr>"
  show ?case
  proof (cases rm)
    case True
    with Cons.prems p out show ?thesis by auto
  next
    case False
    with Cons.prems p out have "try_apps ?st1 d as = Inr (b, st')" by (simp add: Let_def)
    from Cons.IH [OF this] show ?thesis by simp
  qed
qed

lemma choose_app_quiet:
  assumes "choose_app env d st t tag_apps = Inr (fl, st')"
  shows "quiet_step st fl st'"
proof (cases tag_apps)
  case (PyApp a)
  with assms show ?thesis by (simp add: choose_app_def)
next
  case (PyList as)
  show ?thesis
  proof (cases as)
    case Nil
    with assms PyList have "fl = Continue"
      and "st' = st\<lparr> v_extra_tags := List.insert t (v_extra_tags st), v_prev_data := None \<rparr>"
      by (simp_all add: choose_app_def)
    then show ?thesis by (simp add: quiet_step_def)
  next
    case (Cons a rest)
    show ?thesis
    proof (cases "rest = [] \<or> \<not> e_use_rules env")
      case True
      with assms PyList Cons have "fl = Proceed d" and "st' = st\<lparr> v_app := Some (PyApp a) \<rparr>"
        by (simp_all add: choose_app_def)
      then show ?thesis by (simp add: quiet_step_def)
    next
      case False
      with assms PyList Cons have eq:
        "and_then (try_apps st d (a # rest)) (\<lambda>(broke, st1).
                   if broke then Inr (Proceed d, st1)
                   else Inr (Continue, st1\<lparr> v_prev_data := None \<rparr>)) = Inr (fl, st')"
        by (simp add: choose_app_def del: try_apps.simps)
      show ?thesis
      proof (cases "try_apps st d (a # rest)")
        case (Inl e)
        with eq show ?thesis by (simp del: try_apps.simps)
      next
        case (Inr p)
        obtain broke st1 where p: "p = (broke, st1)" by (cases p)
        from try_apps_frame [of st d "a # rest" broke st1] Inr p
        have frame: "v_matching_counter st1 = v_matching_counter st \<and> sent st1 = sent st
          \<and> v_line_counter st1 = v_line_counter st"
          by (simp del: try_apps.simps)
        show ?thesis
        proof (cases broke)
          case True
          with eq Inr p have "fl = Proceed d" and "st' = st1" by (simp_all del: try_apps.simps)
          with frame show ?thesis by (simp add: quiet_step_def)
        next
          case False
          with eq Inr p have "fl = Continue" and "st' = st1\<lparr> v_prev_data := None \<rparr>"
            by (simp_all del: try_apps.simps)
          with frame show ?thesis by (simp add: quiet_step_def)
        qed
      qed
    qed
  qed
qed

lemma resolve_app_quiet:
  assumes "resolve_app env file_app d st = Inr (fl, st')"
  shows "quiet_step st fl st'"
proof (cases "parser_app (e_ext env) (v_log_parser st)")
  case (Some v)
  with assms have "fl = Proceed d" and "st' = st\<lparr> v_app := Some v \<rparr>"
    by (simp_all add: resolve_app_def)
  then show ?thesis by (simp add: quiet_step_def)
next
  case None
  note no_parser_app = None
  show ?thesis
  proof (cases "apptag d")
    case None
    show ?thesis
    proof (cases file_app)
      case (Some v)
      with assms no_parser_app None have "fl = Proceed d" and "st' = st\<lparr> v_app := Some v \<rparr>"
        by (simp_all add: resolve_app_def)
      then show ?thesis by (simp add: quiet_step_def)
    next
      case no_file_app: None
      with assms no_parser_app None have "fl = Continue"
        and "st' = st\<lparr> v_app := None, v_prev_data := None \<rparr>"
        by (simp_all add: resolve_app_def)
      then show ?thesis by (simp add: quiet_step_def)
    qed
  next
    case (Some t)
    with assms no_parser_app obtain tag_apps where
      "choose_app env d (st\<lparr> v_app := None \<rparr>) t tag_apps = Inr (fl, st')"
      by (auto simp: resolve_app_def and_then_eq_Inr)
    from choose_app_quiet [OF this] show ?thesis by (simp add: quiet_step_def)
  qed
qed

lemma report_times_frame:
  "report_times env st = Inr st' \<Longrightarrow>
     v_matching_counter st' = v_matching_counter st \<and> sent st' = sent st
     \<and> v_line_counter st' = v_line_counter st \<and> v_prev_data st' = v_prev_data st"
  by (auto simp: report_times_def split: if_splits option.splits)

lemma cache_add_line_frame:
  "cache_add_line st v th = Inr st' \<Longrightarrow>
     v_matching_counter st' = v_matching_counter st \<and> sent st' = sent st
     \<and> v_line_counter st' = v_line_counter st \<and> v_prev_data st' = v_prev_data st"
  by (auto simp: cache_add_line_def split: option.splits pyval.splits)

lemma remap_frame:
  "v_matching_counter (case mapd of None \<Rightarrow> st1 | Some md \<Rightarrow> st1\<lparr> v_line := g md \<rparr>)
     = v_matching_counter st1
   \<and> sent (case mapd of None \<Rightarrow> st1 | Some md \<Rightarrow> st1\<lparr> v_line := g md \<rparr>) = sent st1
   \<and> v_line_counter (case mapd of None \<Rightarrow> st1 | Some md \<Rightarrow> st1\<lparr> v_line := g md \<rparr>)
     = v_line_counter st1"
  by (cases mapd) simp_all

lemma apply_rules_quiet:
  assumes "apply_rules env d st = Inr (fl, st')"
  shows "quiet_step st fl st'"
proof (cases "e_use_rules env \<and> (v_pattern_match st \<noteq> None \<or> e_thread env)")
  case False
  with assms show ?thesis by (auto simp: apply_rules_def quiet_step_def)
next
  case True
  with assms obtain a where a: "v_app st = Some (PyApp a)"
    by (auto simp: apply_rules_def split: option.splits pyval.splits)
  from assms True a obtain out app' where p: "process (apps st a) d = Inr (out, app')"
    by (auto simp: apply_rules_def and_then_eq_Inr)
  obtain rm fm th mapd where out: "out = (rm, fm, th, mapd)" by (cases out)
  let ?st1 = "st\<lparr> apps := (apps st)(a := app'), v_full_match := fm, v_app_thread := th \<rparr>"
  let ?remap = "\<lambda>f. case mapd of None \<Rightarrow> ?st1
                     | Some md \<Rightarrow> ?st1\<lparr> v_line := f (e_ext env) (v_log_parser ?st1) (v_line ?st1) md \<rparr>"
  from assms True a p out have body:
    "(if \<not> rm then
        (if \<not> e_match_unparsed env then Inr (Continue, ?st1\<lparr> v_prev_data := None \<rparr>)
         else and_then (report_times env (?remap map2str)) (\<lambda>st2. Inr (Proceed d, st2)))
      else if e_match_unparsed env then Inr (Continue, ?st1\<lparr> v_prev_data := None \<rparr>)
      else if th \<noteq> None then
        and_then (cache_add_line (?remap map2str_header) (Some (PyApp a)) (the th))
          (\<lambda>st2. and_then (report_times env st2) (\<lambda>st3. Inr (Proceed d, st3)))
      else if fm \<noteq> Some True \<and> has_filters app'
        then Inr (Continue, ?st1\<lparr> v_prev_data := None \<rparr>)
      else and_then (report_times env (?remap map2str)) (\<lambda>st2. Inr (Proceed d, st2)))
     = Inr (fl, st')"
    by (simp add: apply_rules_def Let_def)
  have emit: "quiet_step st (Proceed d) st2" if "report_times env (?remap f) = Inr st2" for f st2
    using report_times_frame [OF that]
    by (simp add: quiet_step_def remap_frame)
  have threaded: "quiet_step st (Proceed d) st3"
    if "cache_add_line (?remap f) v t = Inr st2" "report_times env st2 = Inr st3" for f v t st2 st3
    using report_times_frame [OF that(2)] cache_add_line_frame [OF that(1)]
    by (simp add: quiet_step_def remap_frame)
  show ?thesis
  proof (cases rm)
    case False
    show ?thesis
    proof (cases "e_match_unparsed env")
      case True
      with body False obtain st2 where "report_times env (?remap map2str) = Inr st2"
        and "fl = Proceed d" and "st' = st2"
        by (auto simp: and_then_eq_Inr)
      with emit show ?thesis by blast
    next
      case unp: False
      with body False show ?thesis by (auto simp: quiet_step_def)
    qed
  next
    case True
    note matched = True
    show ?thesis
    proof (cases "e_match_unparsed env")
      case True
      with body matched show ?thesis by (auto simp: quiet_step_def)
    next
      case False
      note parsed = False
      show ?thesis
      proof (cases th)
        case (Some t)
        with body matched parsed obtain st2 st3 where
          "cache_add_line (?remap map2str_header) (Some (PyApp a)) t = Inr st2"
          and "report_times env st2 = Inr st3" and "fl = Proceed d" and "st' = st3"
          by (auto simp: and_then_eq_Inr)
        with threaded show ?thesis by blast
      next
        case None
        show ?thesis
        proof (cases "fm \<noteq> Some True \<and> has_filters app'")
          case True
          with body matched parsed None show ?thesis by (auto simp: quiet_step_def)
        next
          case False
          with body matched parsed None obtain st2 where
            "report_times env (?remap map2str) = Inr st2" and "fl = Proceed d" and "st' = st2"
            by (auto simp: and_then_eq_Inr)
          with emit show ?thesis by blast
        qed
      qed
    qed
  qed
qed

lemma repeat_line_idle:
  assumes "v_prev_data st = None" and "repeat_line env st n = Inr (fl, st')"
  shows "fl = Continue \<and> v_matching_counter st' = v_matching_counter st \<and> sent st' = sent st
       \<and> v_line_counter st' = v_line_counter st \<and> v_prev_data st' = None"
proof (cases "v_app st")
  case None
  with assms show ?thesis by (simp add: repeat_line_def)
next
  case (Some v)
  with assms obtain st1 where "app_counter_incr st (Some v) = Inr st1"
    and "fl = Continue" and "st' = st1"
    by (auto simp: repeat_line_def and_then_eq_Inr)
  with app_counter_incr_frame [of st "Some v" st1] assms(1) show ?thesis by simp
qed

lemma rules_step_quiet:
  assumes "and_then (app_counter_incr st (v_app st)) (\<lambda>st6. apply_rules env d st6) = Inr (fl, st')"
  shows "quiet_step st fl st'"
proof -
  from assms obtain st6 where c: "app_counter_incr st (v_app st) = Inr st6"
    and r: "apply_rules env d st6 = Inr (fl, st')"
    by (auto simp: and_then_eq_Inr)
  from app_counter_incr_frame [OF c] apply_rules_quiet [OF r] show ?thesis
    by (simp add: quiet_step_def)
qed

lemma resolve_step_quiet:
  assumes "proceed_then (resolve_app env file_app d st) (\<lambda>d st5.
             and_then (app_counter_incr st5 (v_app st5)) (\<lambda>st6. apply_rules env d st6))
           = Inr (fl, st')"
  shows "quiet_step st fl st'"
  by (rule proceed_then_quiet [OF assms]) (erule resolve_app_quiet, erule rules_step_quiet)

lemma patterns_step_quiet:
  assumes "\<not> e_thread env"
    and "proceed_then (check_patterns env d st) (\<lambda>d st4.
           proceed_then (resolve_app env file_app d st4) (\<lambda>d st5.
             and_then (app_counter_incr st5 (v_app st5)) (\<lambda>st6. apply_rules env d st6)))
         = Inr (fl, st')"
  shows "quiet_step st fl st'"
  by (rule proceed_then_quiet [OF assms(2)])
     (erule check_patterns_quiet [OF assms(1)], erule resolve_step_quiet)

lemma host_step_quiet:
  assumes "\<not> e_thread env"
    and "proceed_then (check_host env d st) (\<lambda>d st3.
           proceed_then (check_patterns env d st3) (\<lambda>d st4.
           proceed_then (resolve_app env file_app d st4) (\<lambda>d st5.
             and_then (app_counter_incr st5 (v_app st5)) (\<lambda>st6. apply_rules env d st6))))
         = Inr (fl, st')"
  shows "quiet_step st fl st'"
  by (rule proceed_then_quiet [OF assms(2)])
     (erule check_host_quiet, erule patterns_step_quiet [OF assms(1)])

lemma filters_chain_quiet:
  assumes nt: "\<not> e_thread env"
    and run: "proceed_then (check_time env file d st1) (\<lambda>d st2.
               proceed_then (check_host env d st2) (\<lambda>d st3.
               proceed_then (check_patterns env d st3) (\<lambda>d st4.
               proceed_then (resolve_app env file_app d st4) (\<lambda>d st5.
                 and_then (app_counter_incr st5 (v_app st5)) (\<lambda>st6.
                   apply_rules env d st6))))) = Inr (fl, st')"
  shows "quiet_step st1 fl st'"
  by (rule proceed_then_quiet [OF run])
     (erule check_time_quiet, erule host_step_quiet [OF nt])

lemma parse_line_locals [simp]:
  "parse_line env (st\<lparr> v_line_counter := c, v_line := l \<rparr>) line = parse_line env st line"
  by (simp add: parse_line_def split: option.splits)

lemma line_filters_quiet:
  assumes nt: "\<not> e_thread env"
    and idle: "v_prev_data st = None
                 \<or> (\<forall>p d. parse_line env st line = Some (p, d) \<longrightarrow> repeat d = None)"
    and run: "line_filters env file file_app st line = Inr (fl, st')"
  shows "v_matching_counter st' = v_matching_counter st \<and> sent st' = sent st
       \<and> v_line_counter st' = v_line_counter st + 1
       \<and> (fl = Continue \<and> v_prev_data st = None \<longrightarrow> v_prev_data st' = None)"
proof (cases "parse_line env st line")
  case None
  with run show ?thesis by (auto simp: line_filters_def Let_def)
next
  case (Some pd)
  obtain p d where pd: "pd = (p, d)" by (cases pd)
  let ?st1 = "st\<lparr> v_line_counter := v_line_counter st + 1, v_line := line, v_log_parser := p \<rparr>"
  show ?thesis
  proof (cases "repeat d")
    case (Some n)
    with idle \<open>parse_line env st line = Some pd\<close> pd have prev: "v_prev_data ?st1 = None"
      by auto
    from run \<open>parse_line env st line = Some pd\<close> pd Some
    have "repeat_line env ?st1 n = Inr (fl, st')"
      by (simp add: line_filters_def Let_def)
    from repeat_line_idle [OF prev this] show ?thesis by simp
  next
    case None
    from run \<open>parse_line env st line = Some pd\<close> pd None
    have "quiet_step (?st1\<lparr> v_prev_data := Some d \<rparr>) fl st'"
      by (intro filters_chain_quiet [OF nt]) (simp add: line_filters_def Let_def)
    then show ?thesis by (simp add: quiet_step_def)
  qed
qed

lemma dispatch_counts:
  assumes "\<not> e_thread env"
  shows "dispatch env file applist d st =
     Inr (st\<lparr> v_matching_counter := v_matching_counter st + 1,
              sent := (if e_send_selected env
                       then sent st @ [LineEvent (lf_name file)
                              (if e_line_number env then Some (v_line_counter st) else None)
                              d (v_line st) (v_pattern_match st)]
                       else sent st) \<rparr>)"
  using assms by (simp add: dispatch_def Let_def)

subsection \<open>The scan of a file outside thread mode\<close>

lemma no_repeat_lines_parse:
  assumes "no_repeat_lines env ls" and "line \<in> set ls"
  shows "\<forall>p d. parse_line env st line = Some (p, d) \<longrightarrow> repeat d = None"
proof (intro allI impI)
  fix p d
  assume pl: "parse_line env st line = Some (p, d)"
  from assms have h: "case parser_match (e_ext env) (v_log_parser st) line of
                               Some d \<Rightarrow> repeat d = None
                             | None \<Rightarrow> (case parser_detect (e_ext env) (v_log_parser st) line of
                                          Some (q, d) \<Rightarrow> repeat d = None
                                        | None \<Rightarrow> True)"
    by (simp add: no_repeat_lines_def)
  show "repeat d = None"
  proof (cases "parser_match (e_ext env) (v_log_parser st) line")
    case (Some d')
    with pl h show ?thesis by (simp add: parse_line_def)
  next
    case None
    with pl h show ?thesis by (simp add: parse_line_def)
  qed
qed

lemma no_repeat_lines_Cons:
  "no_repeat_lines env (line # rest) \<Longrightarrow> no_repeat_lines env rest"
  by (simp add: no_repeat_lines_def)

lemma scan_max_count:
  assumes nt: "\<not> e_thread env" and ss: "e_send_selected env" and mc: "e_max_count env = Some m"
    and mpos: "0 < m"
  shows "v_matching_counter st < m \<Longrightarrow> no_repeat_lines env ls \<Longrightarrow>
         m - v_matching_counter st \<le> int (matching_lines env file fa al st ls) \<Longrightarrow>
         \<exists>st' evs. scan env file fa al st ls = Inr st'
           \<and> v_matching_counter st' = m
           \<and> sent st' = sent st @ evs
           \<and> int (length evs) = m - v_matching_counter st
           \<and> (\<forall>ev \<in> set evs. is_line_event ev)
           \<and> v_line_counter st' \<le> v_line_counter st + int (length ls)
           \<and> (m - v_matching_counter st < int (matching_lines env file fa al st ls)
                \<longrightarrow> v_line_counter st' < v_line_counter st + int (length ls))"
proof (induction ls arbitrary: st)
  case Nil
  then show ?case by simp
next
  case (Cons line rest)
  from Cons.prems(1,3) have pos: "0 < matching_lines env file fa al st (line # rest)" by simp
  then obtain fl st1 where lf: "line_filters env file fa st line = Inr (fl, st1)"
    by (cases "line_filters env file fa st line") auto
  have plain: "v_prev_data st = None
      \<or> (\<forall>p d. parse_line env st line = Some (p, d) \<longrightarrow> repeat d = None)"
    using no_repeat_lines_parse [OF Cons.prems(2), of line st] by simp
  from line_filters_quiet [OF nt plain lf]
  have frame: "v_matching_counter st1 = v_matching_counter st" "sent st1 = sent st"
    "v_line_counter st1 = v_line_counter st + 1" by simp_all
  note rest_plain = no_repeat_lines_Cons [OF Cons.prems(2)]
  show ?case
  proof (cases fl)
    case Continue
    with lf have ml: "matching_lines env file fa al st (line # rest)
                       = matching_lines env file fa al st1 rest" by simp
    from lf Continue have sc: "scan env file fa al st (line # rest) = scan env file fa al st1 rest"
      by simp
    from Cons.prems(1,3) frame ml
    have "v_matching_counter st1 < m"
      and "m - v_matching_counter st1 \<le> int (matching_lines env file fa al st1 rest)"
      by (simp_all del: scan.simps(2) matching_lines.simps(2))
    from Cons.IH [OF this(1) rest_plain this(2)] obtain st' evs where
      "scan env file fa al st1 rest = Inr st'"
      "v_matching_counter st' = m" "sent st' = sent st1 @ evs"
      "int (length evs) = m - v_matching_counter st1" "\<forall>ev \<in> set evs. is_line_event ev"
      "v_line_counter st' \<le> v_line_counter st1 + int (length rest)"
      "m - v_matching_counter st1 < int (matching_lines env file fa al st1 rest)
                \<longrightarrow> v_line_counter st' < v_line_counter st1 + int (length rest)"
      by blast
    with sc ml frame show ?thesis
      by (intro exI [of _ st'] exI [of _ evs]) (auto simp del: scan.simps(2) matching_lines.simps(2))
  next
    case Break
    with lf pos show ?thesis by simp
  next
    case (Proceed d)
    let ?ev = "LineEvent (lf_name file)
                 (if e_line_number env then Some (v_line_counter st1) else None)
                 d (v_line st1) (v_pattern_match st1)"
    let ?st2 = "st1\<lparr> v_matching_counter := v_matching_counter st1 + 1,
                     sent := sent st1 @ [?ev] \<rparr>"
    have dp: "dispatch env file al d st1 = Inr ?st2"
      using dispatch_counts [OF nt] ss by simp
    from lf Proceed dp have ml: "matching_lines env file fa al st (line # rest)
                       = Suc (matching_lines env file fa al ?st2 rest)" by simp
    have ev: "is_line_event ?ev" by (simp add: is_line_event_def)
    show ?thesis
    proof (cases "max_count_reached env ?st2")
      case True
      with lf Proceed dp have sc: "scan env file fa al st (line # rest) = Inr ?st2" by simp
      from True mc Cons.prems(1) frame have last: "v_matching_counter st + 1 = m"
        by (simp add: max_count_reached_def)
      have "m - v_matching_counter st < int (matching_lines env file fa al st (line # rest))
              \<longrightarrow> rest \<noteq> []"
        using ml last by (cases rest) (auto simp del: scan.simps(2) matching_lines.simps(2))
      with sc last frame ev show ?thesis
        by (intro exI [of _ ?st2] exI [of _ "[?ev]"]) (auto simp del: scan.simps(2) matching_lines.simps(2))
    next
      case False
      with lf Proceed dp have sc: "scan env file fa al st (line # rest)
                                    = scan env file fa al ?st2 rest" by simp
      from False mc mpos Cons.prems(1) frame have more: "v_matching_counter ?st2 < m"
        by (auto simp: max_count_reached_def)
      from Cons.prems(3) ml frame
      have "m - v_matching_counter ?st2 \<le> int (matching_lines env file fa al ?st2 rest)"
        by (simp del: scan.simps(2) matching_lines.simps(2))
      from Cons.IH [OF more rest_plain this] obtain st' evs where
        "scan env file fa al ?st2 rest = Inr st'"
        "v_matching_counter st' = m" "sent st' = sent ?st2 @ evs"
        "int (length evs) = m - v_matching_counter ?st2" "\<forall>ev \<in> set evs. is_line_event ev"
        "v_line_counter st' \<le> v_line_counter ?st2 + int (length rest)"
        "m - v_matching_counter ?st2 < int (matching_lines env file fa al ?st2 rest)
                \<longrightarrow> v_line_counter st' < v_line_counter ?st2 + int (length rest)"
        by blast
      with sc ml frame ev show ?thesis
        by (intro exI [of _ st'] exI [of _ "?ev # evs"])
           (auto simp del: scan.simps(2) matching_lines.simps(2))
    qed
  qed
qed

lemma app_value_increase_last_frame:
  "app_value_increase_last st v k = Inr st' \<Longrightarrow>
     sent st' = sent st \<and> v_line_counter st' = v_line_counter st
     \<and> v_app_thread st' = v_app_thread st"
  by (cases v) (auto simp: app_value_increase_last_def and_then_eq_Inr)

lemma repeat_line_sent:
  assumes "repeat_line env st n = Inr (fl, st')"
  shows "fl = Continue \<and> sent st' = sent st \<and> v_line_counter st' = v_line_counter st"
proof (cases "v_prev_data st")
  case None
  from repeat_line_idle [OF None assms] show ?thesis by simp
next
  case (Some prev)
  let ?st1 = "if \<not> e_thread env
              then st\<lparr> v_matching_counter := v_matching_counter st + n \<rparr> else st"
  have st1: "sent ?st1 = sent st \<and> v_line_counter ?st1 = v_line_counter st" by simp
  show ?thesis
  proof (cases "e_use_rules env")
    case False
    with assms Some have "fl = Continue" and "st' = ?st1\<lparr> v_prev_data := None \<rparr>"
      by (simp_all add: repeat_line_def Let_def)
    with st1 show ?thesis by simp
  next
    case True
    with assms Some have
      "and_then (repeat_tag_lookup (e_tagmap env) (apptag prev)) (\<lambda>v.
         and_then (app_value_increase_last (?st1\<lparr> v_app := Some v \<rparr>) v n) (\<lambda>st2.
         and_then (app_counter_incr st2 (Some v)) (\<lambda>st3.
         and_then (case v_app_thread st3 of
                            None \<Rightarrow> Inr st3
                          | Some th \<Rightarrow> cache_add_line st3 (Some v) th) (\<lambda>st4.
                  Inr (Continue, st4\<lparr> v_prev_data := None \<rparr>))))) = Inr (fl, st')"
      by (simp add: repeat_line_def Let_def)
    then obtain v st2 st3 st4 where
      a: "app_value_increase_last (?st1\<lparr> v_app := Some v \<rparr>) v n = Inr st2"
      and b: "app_counter_incr st2 (Some v) = Inr st3"
      and c: "(case v_app_thread st3 of None \<Rightarrow> Inr st3
               | Some th \<Rightarrow> cache_add_line st3 (Some v) th) = Inr st4"
      and d: "fl = Continue" "st' = st4\<lparr> v_prev_data := None \<rparr>"
      unfolding and_then_eq_Inr by blast
    from c have "sent st4 = sent st3 \<and> v_line_counter st4 = v_line_counter st3"
      by (cases "v_app_thread st3") (auto dest: cache_add_line_frame)
    with app_value_increase_last_frame [OF a] app_counter_incr_frame [OF b] d st1
    show ?thesis by simp
  qed
qed

lemma line_filters_sent:
  assumes nt: "\<not> e_thread env"
    and run: "line_filters env file file_app st line = Inr (fl, st')"
  shows "sent st' = sent st \<and> v_line_counter st' = v_line_counter st + 1"
proof (cases "parse_line env st line")
  case None
  with run show ?thesis by (auto simp: line_filters_def Let_def)
next
  case (Some pd)
  obtain p d where pd: "pd = (p, d)" by (cases pd)
  let ?st1 = "st\<lparr> v_line_counter := v_line_counter st + 1, v_line := line, v_log_parser := p \<rparr>"
  show ?thesis
  proof (cases "repeat d")
    case (Some n)
    from run \<open>parse_line env st line = Some pd\<close> pd Some
    have "repeat_line env ?st1 n = Inr (fl, st')"
      by (simp add: line_filters_def Let_def)
    from repeat_line_sent [OF this] show ?thesis by simp
  next
    case None
    from run \<open>parse_line env st line = Some pd\<close> pd None
    have "quiet_step (?st1\<lparr> v_prev_data := Some d \<rparr>) fl st'"
      by (intro filters_chain_quiet [OF nt]) (simp add: line_filters_def Let_def)
    then show ?thesis by (simp add: quiet_step_def)
  qed
qed

lemma scan_silent:
  assumes nt: "\<not> e_thread env" and quiet: "\<not> e_send_selected env"
  shows "scan env file fa al st ls = Inr st' \<Longrightarrow> sent st' = sent st"
proof (induction ls arbitrary: st)
  case Nil
  then show ?case by simp
next
  case (Cons line rest)
  from Cons.prems obtain fl st1 where lf: "line_filters env file fa st line = Inr (fl, st1)"
    by (auto simp: and_then_eq_Inr)
  from line_filters_sent [OF nt lf] have s1: "sent st1 = sent st" by simp
  show ?case
  proof (cases fl)
    case Continue
    with Cons.prems lf have "scan env file fa al st1 rest = Inr st'" by simp
    from Cons.IH [OF this] s1 show ?thesis by simp
  next
    case Break
    with Cons.prems lf s1 show ?thesis by simp
  next
    case (Proceed d)
    let ?st2 = "st1\<lparr> v_matching_counter := v_matching_counter st1 + 1 \<rparr>"
    have dp: "dispatch env file al d st1 = Inr ?st2"
      using dispatch_counts [OF nt] quiet by simp
    show ?thesis
    proof (cases "max_count_reached env ?st2")
      case True
      with Cons.prems lf Proceed dp s1 show ?thesis by auto
    next
      case False
      with Cons.prems lf Proceed dp have "scan env file fa al ?st2 rest = Inr st'" by simp
      from Cons.IH [OF this] s1 show ?thesis by simp
    qed
  qed
qed

lemma scan_first_match:
  assumes nt: "\<not> e_thread env" and mc: "e_max_count env = Some 1"
  shows "v_prev_data st = None \<Longrightarrow> v_matching_counter st = 0 \<Longrightarrow>
         first_matching_line env file fa st ls = Some k \<Longrightarrow>
         \<exists>st'. scan env file fa al st ls = Inr st'
           \<and> v_line_counter st' = v_line_counter st + int k
           \<and> v_matching_counter st' = 1
           \<and> 1 \<le> k \<and> k \<le> length ls"
proof (induction ls arbitrary: st k)
  case Nil
  then show ?case by simp
next
  case (Cons line rest)
  from Cons.prems(3) obtain fl st1 where lf: "line_filters env file fa st line = Inr (fl, st1)"
    by (cases "line_filters env file fa st line") auto
  from line_filters_quiet [OF nt _ lf] Cons.prems(1)
  have frame: "v_matching_counter st1 = v_matching_counter st"
    "v_line_counter st1 = v_line_counter st + 1"
    "fl = Continue \<longrightarrow> v_prev_data st1 = None" by simp_all
  show ?case
  proof (cases fl)
    case Continue
    with Cons.prems(3) lf obtain k' where k': "first_matching_line env file fa st1 rest = Some k'"
      and k: "k = Suc k'" by auto
    from frame Continue Cons.prems(2) have "v_prev_data st1 = None" "v_matching_counter st1 = 0"
      by simp_all
    from Cons.IH [OF this k'] obtain st' where
      "scan env file fa al st1 rest = Inr st'"
      "v_line_counter st' = v_line_counter st1 + int k'"
      "v_matching_counter st' = 1" "1 \<le> k'" "k' \<le> length rest" by blast
    with lf Continue k frame show ?thesis by (intro exI [of _ st']) simp
  next
    case Break
    with Cons.prems(3) lf show ?thesis by simp
  next
    case (Proceed d)
    with Cons.prems(3) lf have k: "k = 1" by simp
    have "\<exists>st2. dispatch env file al d st1 = Inr st2
      \<and> v_matching_counter st2 = v_matching_counter st1 + 1
      \<and> v_line_counter st2 = v_line_counter st1"
      by (simp add: dispatch_counts [OF nt])
    then obtain st2 where dp: "dispatch env file al d st1 = Inr st2"
      and c2: "v_matching_counter st2 = v_matching_counter st1 + 1"
      and l2: "v_line_counter st2 = v_line_counter st1"
      by blast
    from c2 frame Cons.prems(2) mc have "max_count_reached env st2"
      by (simp add: max_count_reached_def)
    with lf Proceed dp have "scan env file fa al st (line # rest) = Inr st2" by simp
    with k c2 l2 frame Cons.prems(2) show ?thesis by (intro exI [of _ st2]) simp
  qed
qed

lemma init_locals_shared:
  "sent (init_locals env st) = sent st \<and> v_matching_counter (init_locals env st) = 0
   \<and> v_line_counter (init_locals env st) = 0 \<and> v_prev_data (init_locals env st) = None"
  by (simp add: init_locals_def)

lemmas ex_engine_defs =
  ex_line_def ex_repeat_line_def ex_parse_def ex_ext_def ex_cli_def ex_obj_def
  ex_nofilter_app_def ex_state_def ex_file_def run_summary_def

subsection \<open>The maximum count of matches\<close>

text \<open>
  Claim C7, as written, fails. Outside thread mode the line of a repeated message adds its
  number to the counter of matches without an event: with a maximum count of 3 and five
  matching lines, the second line of the file being \<open>last message repeated 5 times\<close>,
  the scan stops at the third line of the file with 2 line events sent (and the counter
  at 7). And in count mode no line event is sent: with a maximum count of 2 and five
  matching lines the only event is the summary.
\<close>

theorem max_count_counterexample:
  "run_summary
     (process_logfile
        (create_matcher_engine ex_ext
           (ex_obj (ex_cli False False (Some 3) False) [(''app'', PyList [0])]))
        (ex_file [ex_line ''login'', ex_repeat_line, ex_line ''login'', ex_line ''login'',
                  ex_line ''login'', ex_line ''login'']) [0] ex_state)
     = Inr ((3, 7, 0, [], None, None), 2, 2, [[]], 2)
   \<and> run_summary
     (process_logfile
        (create_matcher_engine ex_ext
           (ex_obj (ex_cli False True (Some 2) True) [(''app'', PyList [0])]))
        (ex_file [ex_line ''login'', ex_line ''login'', ex_line ''login'', ex_line ''login'',
                  ex_line ''login'']) [0] ex_state)
     = Inr ((2, 2, 0, [], None, None), 0, 1, [[([Some ''host1'', None], 2)]], 2)"
  by code_simp

text \<open>
  Claim C7, amended. Outside thread mode, with a maximum count \<open>m > 0\<close> and neither quiet
  nor count mode, on a file without repeated-message lines that has more than \<open>m\<close>
  matching lines: \<^verbatim>\<open>process_logfile\<close> returns, it has sent exactly \<open>m\<close> events, all of
  them line events, the returned counter of matches is \<open>m\<close>, and the returned line
  counter is less than the number of lines of the file (the rest was not scanned).
\<close>

theorem max_count_stops_scan:
  assumes nt: "\<not> thread (args obj)" and nq: "\<not> quiet (args obj)" and nc: "\<not> count (args obj)"
    and mc: "max_count (args obj) = Some m" and mpos: "0 < m"
    and env: "env = create_matcher_engine ext obj"
    and plain: "no_repeat_lines env (lf_lines file)"
    and more: "m < int (matching_lines env file (file_app_of applist) applist
                          (init_locals env st) (lf_lines file))"
  shows "\<exists>res st' evs. process_logfile env file applist st = Inr (res, st')
           \<and> sent st' = sent st @ evs
           \<and> int (length evs) = m
           \<and> (\<forall>ev \<in> set evs. is_line_event ev)
           \<and> fst (snd res) = m
           \<and> fst res < int (length (lf_lines file))"
proof -
  from env nt have e_nt: "\<not> e_thread env" by (simp add: create_matcher_engine_def)
  from env nq nc have e_ss: "e_send_selected env" by (simp add: create_matcher_engine_def)
  from env nq mc have e_mc: "e_max_count env = Some m" by (simp add: create_matcher_engine_def)
  from env nc have e_nc: "\<not> e_count env" by (simp add: create_matcher_engine_def)
  let ?st0 = "init_locals env st"
  from mpos init_locals_shared [of env st] have a: "v_matching_counter ?st0 < m" by simp
  from more init_locals_shared [of env st]
  have b: "m - v_matching_counter ?st0
             \<le> int (matching_lines env file (file_app_of applist) applist ?st0 (lf_lines file))"
    by simp
  from scan_max_count [OF e_nt e_ss e_mc mpos a plain b] obtain st' evs where
    sc: "scan env file (file_app_of applist) applist ?st0 (lf_lines file) = Inr st'"
    and r: "v_matching_counter st' = m" "sent st' = sent ?st0 @ evs"
      "int (length evs) = m - v_matching_counter ?st0" "\<forall>ev \<in> set evs. is_line_event ev"
      "m - v_matching_counter ?st0
         < int (matching_lines env file (file_app_of applist) applist ?st0 (lf_lines file))
       \<longrightarrow> v_line_counter st' < v_line_counter ?st0 + int (length (lf_lines file))"
    by blast
  from sc e_nt e_nc have "process_logfile env file applist st
      = Inr ((v_line_counter st', v_matching_counter st', v_unparsed_counter st',
              v_extra_tags st', v_first_event st', v_last_event st'), st')"
    by (simp add: process_logfile_def Let_def)
  with r more init_locals_shared [of env st] show ?thesis
    by (intro exI [of _ "(v_line_counter st', v_matching_counter st', v_unparsed_counter st',
              v_extra_tags st', v_first_event st', v_last_event st')"]
           exI [of _ st'] exI [of _ evs]) simp
qed

theorem max_count_stops_scan_witness:
  "\<exists>res st' evs.
      process_logfile
        (create_matcher_engine ex_ext
           (ex_obj (ex_cli False False (Some 2) True) [(''app'', PyList [0])]))
        (ex_file [ex_line ''login'', ex_line ''login'', ex_line ''login'', ex_line ''login'',
                  ex_line ''login'']) [0] ex_state = Inr (res, st')
      \<and> sent st' = sent ex_state @ evs \<and> int (length evs) = 2
      \<and> filter is_line_event evs = evs
      \<and> fst (snd res) = 2 \<and> fst res < 5"
proof -
  let ?obj = "ex_obj (ex_cli False False (Some 2) True) [(''app'', PyList [0])]"
  let ?env = "create_matcher_engine ex_ext ?obj"
  let ?ls = "[ex_line ''login'', ex_line ''login'', ex_line ''login'', ex_line ''login'',
              ex_line ''login'']"
  have a: "\<not> thread (args ?obj)" "\<not> quiet (args ?obj)" "\<not> count (args ?obj)"
    "max_count (args ?obj) = Some 2" "(0::int) < 2"
    by (simp_all add: ex_obj_def ex_cli_def)
  have b: "no_repeat_lines ?env (lf_lines (ex_file ?ls))"
    by (simp add: no_repeat_lines_def create_matcher_engine_def ex_engine_defs startswith_def
        ex_event_def)
  have "matching_lines ?env (ex_file ?ls) (file_app_of [0]) [0] (init_locals ?env ex_state) ?ls = 5"
    by code_simp
  then have c: "2 < int (matching_lines ?env (ex_file ?ls) (file_app_of [0]) [0]
                          (init_locals ?env ex_state) (lf_lines (ex_file ?ls)))"
    by (simp add: ex_file_def)
  from max_count_stops_scan [OF a refl b c] obtain res st' evs where
    "process_logfile ?env (ex_file ?ls) [0] ex_state = Inr (res, st')"
    "sent st' = sent ex_state @ evs" "int (length evs) = 2" "\<forall>ev \<in> set evs. is_line_event ev"
    "fst (snd res) = 2" "fst res < int (length (lf_lines (ex_file ?ls)))"
    by blast
  then show ?thesis
    by (intro exI [of _ res] exI [of _ st'] exI [of _ evs]) (simp add: ex_file_def)
qed

subsection \<open>Quiet mode\<close>

text \<open>
  Claim C9. With the option \<open>quiet\<close>, in thread mode or not and whatever the configured
  maximum count, the engine has the maximum count 1 and does not send the selected
  lines. Outside thread mode, a run of \<^verbatim>\<open>process_logfile\<close> that returns has sent no line
  event; and when the \<open>k\<close>-th line of the file is its first matching line, the run returns
  with the line counter \<open>k\<close> (the scan stopped at that line) and the counter of matches 1.
\<close>

theorem quiet_stops_at_first_match:
  assumes q: "quiet (args obj)"
    and env: "env = create_matcher_engine ext obj"
  shows "e_max_count env = Some 1 \<and> \<not> e_send_selected env
       \<and> (\<not> thread (args obj) \<longrightarrow>
            (\<forall>res st'. process_logfile env file applist st = Inr (res, st') \<longrightarrow>
               filter is_line_event (sent st') = filter is_line_event (sent st))
          \<and> (\<forall>k. first_matching_line env file (file_app_of applist) (init_locals env st)
                   (lf_lines file) = Some k \<longrightarrow>
               (\<exists>res st'. process_logfile env file applist st = Inr (res, st')
                   \<and> fst res = int k \<and> fst (snd res) = 1)))"
proof (intro conjI allI impI)
  from env q show e_mc: "e_max_count env = Some 1" by (simp add: create_matcher_engine_def)
  from env q show e_ss: "\<not> e_send_selected env" by (simp add: create_matcher_engine_def)
  assume nt: "\<not> thread (args obj)"
  with env have e_nt: "\<not> e_thread env" by (simp add: create_matcher_engine_def)
  {
    fix res st'
    assume run: "process_logfile env file applist st = Inr (res, st')"
    then obtain st1 where
      sc: "scan env file (file_app_of applist) applist (init_locals env st) (lf_lines file) = Inr st1"
      and fin: "st' = (if e_count env
                       then st1\<lparr> sent := sent st1 @ [CountEvent (lf_name file) (v_matching_counter st1)] \<rparr>
                       else st1)"
      using e_nt by (auto simp: process_logfile_def Let_def and_then_eq_Inr)
    from scan_silent [OF e_nt e_ss sc] init_locals_shared [of env st]
    have "sent st1 = sent st" by simp
    with fin show "filter is_line_event (sent st') = filter is_line_event (sent st)"
      by (simp add: is_line_event_def)
  }
  {
    fix k
    assume "first_matching_line env file (file_app_of applist) (init_locals env st)
                 (lf_lines file) = Some k"
    from scan_first_match [OF e_nt e_mc _ _ this, of applist] init_locals_shared [of env st]
    obtain st1 where
      sc: "scan env file (file_app_of applist) applist (init_locals env st) (lf_lines file) = Inr st1"
      and r: "v_line_counter st1 = int k" "v_matching_counter st1 = 1"
      by auto
    let ?st3 = "if e_count env
                then st1\<lparr> sent := sent st1 @ [CountEvent (lf_name file) (v_matching_counter st1)] \<rparr>
                else st1"
    from sc e_nt have "process_logfile env file applist st
      = Inr ((v_line_counter ?st3, v_matching_counter ?st3, v_unparsed_counter ?st3,
              v_extra_tags ?st3, v_first_event ?st3, v_last_event ?st3), ?st3)"
      by (simp add: process_logfile_def Let_def)
    with r show "\<exists>res st'. process_logfile env file applist st = Inr (res, st')
                 \<and> fst res = int k \<and> fst (snd res) = 1"
      by (intro exI [of _ "(v_line_counter ?st3, v_matching_counter ?st3, v_unparsed_counter ?st3,
              v_extra_tags ?st3, v_first_event ?st3, v_last_event ?st3)"] exI [of _ ?st3]) simp
  }
qed

theorem quiet_stops_at_first_match_witness:
  "e_max_count (create_matcher_engine ex_ext
           (ex_obj (ex_cli True False (Some 4) True) [(''app'', PyList [0])])) = Some 1
   \<and> \<not> e_send_selected (create_matcher_engine ex_ext
           (ex_obj (ex_cli True False (Some 4) True) [(''app'', PyList [0])]))
   \<and> (\<exists>res st'.
      process_logfile
        (create_matcher_engine ex_ext
           (ex_obj (ex_cli True False (Some 4) True) [(''app'', PyList [0])]))
        (ex_file [''garbage'', ex_line ''logout'', ex_line ''login'', ex_line ''login''])
        [0] ex_state = Inr (res, st')
      \<and> fst res = 3 \<and> fst (snd res) = 1
      \<and> filter is_line_event (sent st') = filter is_line_event (sent ex_state))"
proof -
  let ?obj = "ex_obj (ex_cli True False (Some 4) True) [(''app'', PyList [0])]"
  let ?env = "create_matcher_engine ex_ext ?obj"
  let ?ls = "[''garbage'', ex_line ''logout'', ex_line ''login'', ex_line ''login'']"
  have a: "quiet (args ?obj)" and nt: "\<not> thread (args ?obj)"
    by (simp_all add: ex_obj_def ex_cli_def)
  have "first_matching_line ?env (ex_file ?ls) (file_app_of [0]) (init_locals ?env ex_state) ?ls
          = Some 3"
    by code_simp
  then have b: "first_matching_line ?env (ex_file ?ls) (file_app_of [0])
                  (init_locals ?env ex_state) (lf_lines (ex_file ?ls)) = Some 3"
    by (simp add: ex_file_def)
  from quiet_stops_at_first_match [of ?obj ?env ex_ext "ex_file ?ls" "[0]" ex_state, OF a refl] nt b
  show ?thesis by (auto simp del: first_matching_line.simps)
qed

subsection \<open>The line of a repeated message\<close>

text \<open>
  \<^verbatim>\<open>AppRule.increase_last(k)\<close> itself adds \<open>k\<close> to the count of the last result key and
  creates no key.
\<close>

lemma increase_last_adds:
  assumes "last_idx rule = Some idx" and "map_of (results rule) idx = Some c"
  shows "\<exists>rule'. increase_last rule k = Inr rule'
           \<and> map_of (results rule') idx = Some (c + k)
           \<and> map fst (results rule') = map fst (results rule)"
proof -
  from assms(2) have "idx \<in> fst ` set (results rule)"
    by (auto dest: map_of_SomeD intro: rev_image_eqI)
  with assms show ?thesis
    by (simp add: increase_last_def update_conv' update_keys)
qed

text \<open>
  The tag map has to hold lists of applications for an ordinary line to be resolved: with
  the application itself as the value of the tag, the first line raises \<^verbatim>\<open>TypeError\<close>
  at \<^verbatim>\<open>len(tag_apps)\<close>.
\<close>

lemma ordinary_line_needs_list_of_apps:
  "run_summary
     (process_logfile
        (create_matcher_engine ex_ext
           (ex_obj (ex_cli False False None True) [(''app'', PyApp 0)]))
        (ex_file [ex_line ''login user=alice'']) [0] ex_state)
     = Inl TypeError"
  by code_simp

text \<open>
  Claim C5 at a concrete input: the rule engine is in use, the tag map gives the tag
  \<open>app\<close> the list of the application 0, and the file holds a line that the rule \<open>login\<close>
  matches followed by \<open>last message repeated 5 times\<close>. After the first line alone the
  key \<open>(host1, alice)\<close> has the count 1. With the second line, the branch for repeated
  messages binds \<^verbatim>\<open>app = tagmap[apptag]\<close>, the list, and \<^verbatim>\<open>app.increase_last(repeat)\<close>
  raises \<^verbatim>\<open>AttributeError\<close>: the count is not raised to 6.
\<close>

theorem repeat_line_raises:
  "run_summary
     (process_logfile
        (create_matcher_engine ex_ext
           (ex_obj (ex_cli False False None True) [(''app'', PyList [0])]))
        (ex_file [ex_line ''login user=alice'']) [0] ex_state)
     = Inr ((1, 1, 0, [], None, None), 1, 1, [[([Some ''host1'', Some ''alice''], 1)]], 1)
   \<and> run_summary
     (process_logfile
        (create_matcher_engine ex_ext
           (ex_obj (ex_cli False False None True) [(''app'', PyList [0])]))
        (ex_file [ex_line ''login user=alice'', ex_repeat_line]) [0] ex_state)
     = Inl AttributeError"
  by code_simp

subsection \<open>The year of an event without a year\<close>

text \<open>
  The test \<^verbatim>\<open>log_data.month != '1'\<close> is true of every month that \<^verbatim>\<open>MONTHMAP\<close> admits,
  \<open>Jan\<close> and \<open>01\<close> included: for a file modified in January the inferred year is
  always the year before.
\<close>

lemma infer_year_admitted_month:
  assumes "year d = None" and "file_month file = 1" and "map_of MONTHMAP (month d) \<noteq> None"
  shows "infer_year file d = Some (file_year file - 1)"
proof -
  from assms(3) have "month d \<noteq> ''1''" by (auto simp: MONTHMAP_def)
  with assms(1,2) show ?thesis by (simp add: infer_year_def)
qed

text \<open>
  Claim C2 at a concrete input: a file modified in January 2017 and an event of the month
  \<open>Jan\<close> without a year. The inferred year is 2016, not 2017 (as it is for \<open>01\<close>, and for
  \<open>Dec\<close>); \<open>1\<close>, the one spelling the test compares with, is not an admitted month.
\<close>

theorem year_of_january_event:
  "file_year (ex_file []) = 2017 \<and> file_month (ex_file []) = 1
   \<and> month (ex_event ''login'') = ''Jan'' \<and> year (ex_event ''login'') = None
   \<and> infer_year (ex_file []) (ex_event ''login'') = Some 2016
   \<and> infer_year (ex_file []) ((ex_event ''login'')\<lparr> month := ''01'' \<rparr>) = Some 2016
   \<and> infer_year (ex_file []) ((ex_event ''login'')\<lparr> month := ''Dec'' \<rparr>) = Some 2016
   \<and> map_of MONTHMAP ''1'' = None"
  by (simp add: infer_year_def ex_file_def ex_event_def MONTHMAP_def)

end
